theory Spec2Isabelle
  imports Main "HOL-Library.Sublist" "HOL-Library.AList"
begin

section \<open>Strings\<close>

text \<open>
  A Python \<open>str\<close> is modelled as a \<open>string\<close>, read as the bytes of its UTF-8 encoding,
  and a \<open>bytes\<close> value as the list of its bytes. Concatenation, equality, the test for
  the empty string and the operator \<open>k in text\<close> (which is \<^const>\<open>sublist\<close>) are the same
  on a text and on its encoding. The methods of \<open>str\<close> that consult the Unicode tables or
  count characters (\<open>lower\<close>, \<open>split\<close>, \<open>strip\<close>, slicing) are library functions; they
  are parameters of the model, declared with the rest of the library below.
\<close>

type_synonym bytes = string

text \<open>\<open>x or ''\<close> for an optional string: \<open>None\<close> and the empty string both give \<open>''\<close>.\<close>

definition or_empty :: "string option \<Rightarrow> string" where
  "or_empty x = (case x of None \<Rightarrow> [] | Some s \<Rightarrow> s)"

text \<open>\<open>any(k in text for k in ks)\<close>\<close>

definition any_in :: "string list \<Rightarrow> string \<Rightarrow> bool" where
  "any_in ks text = list_ex (\<lambda>k. sublist k text) ks"

section \<open>Library functions taken as given\<close>

text \<open>
  The standard library and the database driver are not part of the repository. What the
  code needs of them is a parameter of the model:
  \<^item> \<open>str_lower\<close>, \<open>str_split\<close>, \<open>str_strip\<close>: the methods \<open>lower()\<close>, \<open>split()\<close> and
    \<open>strip()\<close> of \<open>str\<close>; \<open>str_take n s\<close>: the slice \<open>s[:n]\<close>;
  \<^item> \<open>utf8_ignore\<close>: \<open>bytes.decode(errors="ignore")\<close>;
  \<^item> \<open>decode_header\<close>: \<open>str(make_header(decode_header(s)))\<close>, \<open>None\<close> when it raises;
  \<^item> \<open>parsedate_to_datetime\<close>: \<open>None\<close> when it raises;
  \<^item> \<open>message_from_bytes\<close>: the parser of \<open>email\<close>;
  \<^item> \<open>since_date\<close>: \<open>(now - timedelta(days=days)).strftime('%d-%b-%Y')\<close>, \<open>Inl\<close> the
    message of the exception when the date arithmetic overflows;
  \<^item> \<open>object_id\<close>: the constructor \<open>ObjectId(s)\<close> of \<open>bson\<close>, \<open>None\<close> when it raises
    \<open>InvalidId\<close>;
  \<^item> \<open>new_object_id\<close>: the identifier the store gives to the n-th inserted document.
\<close>

type_synonym datetime = int
type_synonym oid = string

datatype mime =
    Leaf string "string option" bytes
  | Multi string "string option" "mime list"

record message =
  msg_headers :: "(string \<times> string) list"
  msg_content :: mime

record lib =
  str_lower :: "string \<Rightarrow> string"
  str_split :: "string \<Rightarrow> string list"
  str_strip :: "string \<Rightarrow> string"
  str_take :: "nat \<Rightarrow> string \<Rightarrow> string"
  utf8_ignore :: "bytes \<Rightarrow> string"
  decode_header :: "string \<Rightarrow> string option"
  parsedate_to_datetime :: "string \<Rightarrow> datetime option"
  message_from_bytes :: "bytes \<Rightarrow> message"
  since_date :: "datetime \<Rightarrow> int \<Rightarrow> string + string"
  object_id :: "string \<Rightarrow> oid option"
  new_object_id :: "nat \<Rightarrow> oid"

datatype pyval = Bytes bytes | Str string

definition safe_decode :: "lib \<Rightarrow> pyval \<Rightarrow> string" where
  "safe_decode L v = (case v of Bytes b \<Rightarrow> utf8_ignore L b | Str s \<Rightarrow> s)"

definition decode_mime_words :: "lib \<Rightarrow> string option \<Rightarrow> string option" where
  "decode_mime_words L s =
     (case s of
        None \<Rightarrow> None
      | Some v \<Rightarrow>
          if v = [] then None
          else (case decode_header L v of None \<Rightarrow> Some v | Some r \<Rightarrow> Some r))"

section \<open>Classifier\<close>

text \<open>
  The keyword lists are the literal lists of \<open>categorize_email\<close>, in its order.
  \<open>email_text\<close> is the local variable \<open>text\<close> (subject, a space, a line feed, a
  space, body; lower-cased by \<open>str.lower()\<close>)
  and \<open>categorize_text\<close> the chain of rules on it; the nested \<open>if\<close> of the third rule
  falls through to the fourth when its inner test fails, which is the conjunction here.
\<close>

definition out_of_office_terms :: "string list" where
  "out_of_office_terms = [''out of office'', ''ooo'', ''vacation auto-reply'', ''automatic reply'']"

definition not_interested_terms :: "string list" where
  "not_interested_terms = [''not interested'', ''no longer interested'', ''unsubscribe'']"

definition meeting_intent_terms :: "string list" where
  "meeting_intent_terms =
     [''meeting'', ''calendar'', ''schedule'', ''book a time'', ''let'' @ [CHR 0x27] @ ''s meet'']"

definition meeting_artifact_terms :: "string list" where
  "meeting_artifact_terms = [''book'', ''link'', ''schedule'', ''slot'', ''cal.com'', ''calendly'']"

definition interested_terms :: "string list" where
  "interested_terms =
     [''buy'', ''interested'', ''sounds good'', ''let'' @ [CHR 0x27] @ ''s talk'', ''let us talk'']"

definition spam_terms :: "string list" where
  "spam_terms = [''viagra'', ''lottery'', ''claim prize'', ''crypto giveaway'', ''spam'']"

definition categorize_text :: "string \<Rightarrow> string option" where
  "categorize_text text =
     (if any_in out_of_office_terms text then Some ''Out of Office''
      else if any_in not_interested_terms text then Some ''Not Interested''
      else if any_in meeting_intent_terms text \<and> any_in meeting_artifact_terms text
      then Some ''Meeting Booked''
      else if any_in interested_terms text then Some ''Interested''
      else if any_in spam_terms text then Some ''Spam''
      else None)"

definition email_text :: "lib \<Rightarrow> string option \<Rightarrow> string option \<Rightarrow> string" where
  "email_text L subject body =
     str_lower L (or_empty subject @ [CHR '' '', CHR 0x0A, CHR '' ''] @ or_empty body)"

definition categorize_email :: "lib \<Rightarrow> string option \<Rightarrow> string option \<Rightarrow> string option" where
  "categorize_email L subject body = categorize_text (email_text L subject body)"

section \<open>Message decoder\<close>

text \<open>
  A parsed message is a tree: a leaf has the content type that \<open>get_content_type()\<close>
  returns, its \<open>Content-Disposition\<close> header (if any) and the bytes that
  \<open>get_payload(decode=True)\<close> returns; a multipart node has a list of parts, and
  \<open>get_payload(decode=True)\<close> is \<open>None\<close> for it. \<open>walk\<close> yields the node itself and
  then its parts, depth first.
\<close>

fun get_content_type :: "mime \<Rightarrow> string" where
  "get_content_type (Leaf c d p) = c"
| "get_content_type (Multi c d ps) = c"

fun content_disposition :: "mime \<Rightarrow> string option" where
  "content_disposition (Leaf c d p) = d"
| "content_disposition (Multi c d ps) = d"

fun is_multipart :: "mime \<Rightarrow> bool" where
  "is_multipart (Leaf c d p) = False"
| "is_multipart (Multi c d ps) = True"

fun get_payload :: "mime \<Rightarrow> bytes option" where
  "get_payload (Leaf c d p) = Some p"
| "get_payload (Multi c d ps) = None"

fun walk :: "mime \<Rightarrow> mime list" where
  "walk (Leaf c d p) = [Leaf c d p]"
| "walk (Multi c d ps) = Multi c d ps # concat (map walk ps)"

text \<open>\<open>str(x)\<close> for an optional header value: \<open>str(None)\<close> is the text \<open>None\<close>.\<close>

definition str_opt :: "string option \<Rightarrow> string" where
  "str_opt x = (case x of None \<Rightarrow> ''None'' | Some s \<Rightarrow> s)"

text \<open>
  One round of the loop over \<open>msg.walk()\<close>, on the pair \<open>(body_text, body_html)\<close>.
  \<open>if payload:\<close> holds for a payload that is neither \<open>None\<close> nor empty.
\<close>

definition body_step ::
  "lib \<Rightarrow> string option \<times> string option \<Rightarrow> mime \<Rightarrow> string option \<times> string option" where
  "body_step L acc part =
     (let ctype = get_content_type part;
          disp = str_opt (content_disposition part)
      in if ctype = ''text/plain'' \<and> \<not> sublist ''attachment'' disp then
           (case get_payload part of
              None \<Rightarrow> acc
            | Some payload \<Rightarrow>
                if payload \<noteq> [] then (Some (safe_decode L (Bytes payload)), snd acc) else acc)
         else if ctype = ''text/html'' \<and> \<not> sublist ''attachment'' disp then
           (case get_payload part of
              None \<Rightarrow> acc
            | Some payload \<Rightarrow>
                if payload \<noteq> [] then (fst acc, Some (safe_decode L (Bytes payload))) else acc)
         else acc)"

definition extract_body :: "lib \<Rightarrow> mime \<Rightarrow> string option \<times> string option" where
  "extract_body L msg =
     (if is_multipart msg then foldl (body_step L) (None, None) (walk msg)
      else
        (case get_payload msg of
           None \<Rightarrow> (None, None)
         | Some payload \<Rightarrow>
             if payload \<noteq> [] then
               (if get_content_type msg = ''text/html''
                then (None, Some (safe_decode L (Bytes payload)))
                else (Some (safe_decode L (Bytes payload)), None))
             else (None, None)))"

section \<open>Stores\<close>

text \<open>
  The collection \<open>emailmessage\<close> is the list of its documents in insertion order, each
  with the \<open>_id\<close> the store gave it; \<open>agendadoc\<close> is the list of its documents.
  Documents have the fields of \<open>schemas.py\<close>. Calls to the store are taken to succeed.
\<close>

record email_message =
  account_id :: string
  message_id :: string
  uid :: "int option"
  folder :: string
  subject :: "string option"
  sender :: "string option"
  to_hdr :: "string list"
  cc_hdr :: "string list"
  date :: datetime
  snippet :: string
  body_text :: "string option"
  body_html :: "string option"
  labels :: "string list"
  ai_category :: "string option"
  raw_headers :: "(string \<times> string) list"
  created_at :: datetime
  updated_at :: datetime

type_synonym emails = "(oid \<times> email_message) list"


definition insert_one :: "lib \<Rightarrow> emails \<Rightarrow> email_message \<Rightarrow> emails" where
  "insert_one L coll doc = coll @ [(new_object_id L (length coll), doc)]"

text \<open>\<open>find_one({"message_id": mid, "account_id": aid})\<close>\<close>

definition find_by_key :: "emails \<Rightarrow> string \<Rightarrow> string \<Rightarrow> (oid \<times> email_message) option" where
  "find_by_key coll mid aid =
     find (\<lambda>(i, d). message_id d = mid \<and> account_id d = aid) coll"

text \<open>\<open>find_one({"_id": i})\<close>\<close>

definition find_by_id :: "emails \<Rightarrow> oid \<Rightarrow> (oid \<times> email_message) option" where
  "find_by_id coll i = find (\<lambda>(j, d). j = i) coll"

text \<open>\<open>update_one({"_id": i}, {"$set": {"ai_category": c}})\<close>: the first match only.\<close>

fun update_category :: "emails \<Rightarrow> oid \<Rightarrow> string \<Rightarrow> emails" where
  "update_category [] i c = []"
| "update_category ((j, d) # coll) i c =
     (if j = i then (j, d\<lparr>ai_category := Some c\<rparr>) # coll
      else (j, d) # update_category coll i c)"

datatype error = HTTPException nat string | InvalidId

section \<open>Reply suggestion\<close>




text \<open>\<open>a or b\<close> on optional strings: \<open>a\<close> when it is neither \<open>None\<close> nor empty.\<close>

definition por :: "string option \<Rightarrow> string option \<Rightarrow> string option" where
  "por a b = (case a of None \<Rightarrow> b | Some s \<Rightarrow> if s \<noteq> [] then Some s else b)"





section \<open>Classification override\<close>

text \<open>
  \<open>mark_interested\<close>, as far as the store goes: the two notifications that follow the
  update swallow their failures and touch no document.
\<close>

definition mark_interested :: "lib \<Rightarrow> emails \<Rightarrow> string \<Rightarrow> (error + unit) \<times> emails" where
  "mark_interested L coll email_id =
     (case object_id L email_id of
        None \<Rightarrow> (Inl InvalidId, coll)
      | Some i \<Rightarrow>
          (case find_by_id coll i of
             None \<Rightarrow> (Inl (HTTPException 404 ''Email not found''), coll)
           | Some (j, doc) \<Rightarrow> (Inr (), update_category coll j ''Interested'')))"

section \<open>Mailbox session\<close>

text \<open>
  The mail server and \<open>imaplib\<close> are the environment of a run. A mailbox says what each
  call of the session answers: \<open>Some e\<close> or \<open>Inl e\<close> is an exception with message \<open>e\<close>,
  otherwise the call returns (for \<open>search\<close> and \<open>fetch\<close>, the pair of status and data).
  The answers to \<open>search\<close> and \<open>fetch\<close> depend on the folder selected last. The calls
  made on the session are recorded in order.
\<close>

datatype fetch_item = Tuple bytes bytes | Plain bytes

record mailbox =
  open_r :: "bool \<Rightarrow> string \<Rightarrow> int \<Rightarrow> string option"
  login_r :: "string \<Rightarrow> string \<Rightarrow> string option"
  select_r :: "string \<Rightarrow> string option"
  search_r :: "string \<Rightarrow> string \<Rightarrow> string + string \<times> bytes option list"
  fetch_r :: "string \<Rightarrow> bytes \<Rightarrow> string + string \<times> fetch_item list"
  logout_r :: "string option"

datatype imap_call =
    Select string
  | Search string
  | Fetch bytes string
  | Logout

definition connect_imap ::
  "mailbox \<Rightarrow> string \<Rightarrow> int \<Rightarrow> string \<Rightarrow> string \<Rightarrow> bool \<Rightarrow> string + unit" where
  "connect_imap M host port username password use_ssl =
     (case open_r M use_ssl host port of
        Some e \<Rightarrow> Inl e
      | None \<Rightarrow>
          (case login_r M username password of
             Some e \<Rightarrow> Inl e
           | None \<Rightarrow> Inr ()))"

section \<open>Sync orchestrator\<close>

record account =
  acc_id :: oid
  host :: string
  port :: int
  username :: string
  password :: string
  use_ssl :: bool

text \<open>
  The clock of a run: \<open>now\<close> is what \<open>datetime.now()\<close> returns when the cutoff is
  computed, \<open>utcnow n\<close> what the n-th later call of \<open>datetime.now(timezone.utc)\<close>
  returns.
\<close>

record clock =
  now :: datetime
  utcnow :: "nat \<Rightarrow> datetime"

text \<open>
  The state of a run: the collection, the local variable \<open>inserted\<close>, the number of
  readings taken of the UTC clock, and the calls made on the session so far.
\<close>

record sync_state =
  db :: emails
  inserted :: nat
  reads :: nat
  calls :: "imap_call list"

text \<open>
  A step of a run returns \<open>Inr\<close> the next state, or \<open>Inl\<close> the message of the exception
  that escapes it together with the state it leaves behind.
\<close>

type_synonym step_result = "string \<times> sync_state + sync_state"

text \<open>
  \<open>msg.get(name)\<close> and \<open>msg.get_all(name, [])\<close>: header names are compared in lower case;
  the first header of the name, and all of them.
\<close>

definition get_header :: "lib \<Rightarrow> message \<Rightarrow> string \<Rightarrow> string option" where
  "get_header L msg name =
     map_option snd (find (\<lambda>(k, v). str_lower L k = str_lower L name) (msg_headers msg))"

definition get_all :: "lib \<Rightarrow> message \<Rightarrow> string \<Rightarrow> string list" where
  "get_all L msg name =
     map snd (filter (\<lambda>(k, v). str_lower L k = str_lower L name) (msg_headers msg))"

text \<open>\<open>{k: safe_decode(v) for k, v in msg.items()}\<close>: a later header of the same name
  overwrites the value of the earlier one.\<close>

definition header_dict :: "lib \<Rightarrow> message \<Rightarrow> (string \<times> string) list" where
  "header_dict L msg =
     foldl (\<lambda>acc (k, v). AList.update k (safe_decode L (Str v)) acc) [] (msg_headers msg)"

text \<open>The first tuple of \<open>msg_data\<close> gives \<open>raw\<close>; without one \<open>raw\<close> stays \<open>None\<close>.\<close>

fun first_raw :: "fetch_item list \<Rightarrow> bytes option" where
  "first_raw [] = None"
| "first_raw (Tuple a b # items) = Some b"
| "first_raw (Plain a # items) = first_raw items"

definition fallback_id :: "lib \<Rightarrow> bytes \<Rightarrow> string \<Rightarrow> string \<Rightarrow> string" where
  "fallback_id L num fld user =
     ''uid-'' @ safe_decode L (Bytes num) @ ''-'' @ fld @ ''-'' @ user"

text \<open>
  \<open>date_parsed\<close>: the \<open>Date\<close> header through \<open>parsedate_to_datetime\<close>; \<open>None\<close> when
  the header is missing or empty, and when the parser raises.
\<close>

definition parse_date :: "lib \<Rightarrow> message \<Rightarrow> datetime option" where
  "parse_date L msg =
     (let date_hdr = get_header L msg ''Date''
      in case date_hdr of
           None \<Rightarrow> None
         | Some h \<Rightarrow> if h = [] then None else parsedate_to_datetime L h)"

text \<open>\<open>mid\<close>: the \<open>Message-ID\<close> header, or the synthesized identifier without one.\<close>

definition message_key :: "lib \<Rightarrow> message \<Rightarrow> bytes \<Rightarrow> string \<Rightarrow> string \<Rightarrow> string" where
  "message_key L msg num fld user =
     (case get_header L msg ''Message-ID'' of
        None \<Rightarrow> fallback_id L num fld user
      | Some m \<Rightarrow> if m \<noteq> [] then m else fallback_id L num fld user)"

text \<open>
  The body of the loop over the message handles of a folder. The loop variable
  \<open>folder\<close> is written \<open>fld\<close>, \<open>folder\<close> being a field of the record.
\<close>

definition sync_message ::
  "lib \<Rightarrow> mailbox \<Rightarrow> clock \<Rightarrow> account \<Rightarrow> string \<Rightarrow> bytes \<Rightarrow> sync_state \<Rightarrow> step_result" where
  "sync_message L M C acct fld num s0 =
     (let s = s0\<lparr>calls := calls s0 @ [Fetch num ''(RFC822 UID)'']\<rparr>
      in case fetch_r M fld num of
           Inl e \<Rightarrow> Inl (e, s)
         | Inr (typ, msg_data) \<Rightarrow>
             if typ \<noteq> ''OK'' \<or> msg_data = [] then Inr s
             else
               (case first_raw msg_data of
                  None \<Rightarrow> Inr s
                | Some raw \<Rightarrow>
                    if raw = [] then Inr s
                    else
                      (let msg = message_from_bytes L raw;
                           subject = decode_mime_words L (get_header L msg ''Subject'');
                           from' = decode_mime_words L (get_header L msg ''From'');
                           to = get_all L msg ''To'';
                           cc = get_all L msg ''Cc'';
                           date_parsed = parse_date L msg;
                           (body_text, body_html) = extract_body L (msg_content msg);
                           snippet = str_take L 280 (or_empty (por body_text body_html));
                           mid = message_key L msg num fld (username acct);
                           existing = find_by_key (db s) mid (acc_id acct)
                       in if existing \<noteq> None then Inr s
                          else
                            (let ai_cat = categorize_email L subject (por body_text body_html);
                                 r = reads s;
                                 (date, r) =
                                   (case date_parsed of
                                      Some d \<Rightarrow> (d, r)
                                    | None \<Rightarrow> (utcnow C r, Suc r));
                                 doc = \<lparr>account_id = acc_id acct,
                                        message_id = mid,
                                        uid = None,
                                        folder = fld,
                                        subject = subject,
                                        sender = from',
                                        to_hdr = to,
                                        cc_hdr = cc,
                                        date = date,
                                        snippet = snippet,
                                        body_text = body_text,
                                        body_html = body_html,
                                        labels = [],
                                        ai_category = ai_cat,
                                        raw_headers = header_dict L msg,
                                        created_at = utcnow C r,
                                        updated_at = utcnow C (Suc r)\<rparr>
                             in Inr (s\<lparr>db := insert_one L (db s) doc,
                                      inserted := inserted s + 1,
                                      reads := Suc (Suc r)\<rparr>)))))"

fun sync_messages ::
  "lib \<Rightarrow> mailbox \<Rightarrow> clock \<Rightarrow> account \<Rightarrow> string \<Rightarrow> bytes list \<Rightarrow> sync_state \<Rightarrow> step_result" where
  "sync_messages L M C acct fld [] s = Inr s"
| "sync_messages L M C acct fld (num # nums) s =
     (case sync_message L M C acct fld num s of
        Inl x \<Rightarrow> Inl x
      | Inr s' \<Rightarrow> sync_messages L M C acct fld nums s')"

text \<open>\<open>id_list[-1000:]\<close>\<close>

definition last_1000 :: "'a list \<Rightarrow> 'a list" where
  "last_1000 xs = drop (length xs - 1000) xs"

text \<open>
  \<open>bytes.split()\<close> separates at runs of the six ASCII white space bytes.
  \<open>split_from sp w s\<close>: the words of \<open>s\<close>, after the characters \<open>w\<close> of a word begun.
\<close>

definition bytes_space :: "char \<Rightarrow> bool" where
  "bytes_space c = (c \<in> set [CHR 0x09, CHR 0x0A, CHR 0x0B, CHR 0x0C, CHR 0x0D, CHR 0x20])"

fun split_from :: "(char \<Rightarrow> bool) \<Rightarrow> string \<Rightarrow> string \<Rightarrow> string list" where
  "split_from sp w [] = (if w = [] then [] else [w])"
| "split_from sp w (c # cs) =
     (if sp c then (if w = [] then split_from sp [] cs else w # split_from sp [] cs)
      else split_from sp (w @ [c]) cs)"

definition bytes_split :: "bytes \<Rightarrow> bytes list" where
  "bytes_split s = split_from bytes_space [] s"

text \<open>\<open>data[0].split() if data and data[0] else []\<close>\<close>

definition id_list_of :: "bytes option list \<Rightarrow> bytes list" where
  "id_list_of data =
     (case data of
        [] \<Rightarrow> []
      | d0 # rest \<Rightarrow> (case d0 of None \<Rightarrow> [] | Some b \<Rightarrow> if b = [] then [] else bytes_split b))"

definition search_criterion :: "string \<Rightarrow> string" where
  "search_criterion since = ''(SINCE '' @ since @ '')''"

text \<open>The body of the loop over the folders.\<close>

definition sync_folder ::
  "lib \<Rightarrow> mailbox \<Rightarrow> clock \<Rightarrow> account \<Rightarrow> string \<Rightarrow> string \<Rightarrow> sync_state \<Rightarrow> step_result" where
  "sync_folder L M C acct since fld s0 =
     (let s = s0\<lparr>calls := calls s0 @ [Select fld]\<rparr>
      in case select_r M fld of
           Some e \<Rightarrow> Inr s
         | None \<Rightarrow>
             (let s = s\<lparr>calls := calls s @ [Search (search_criterion since)]\<rparr>
              in case search_r M fld (search_criterion since) of
                   Inl e \<Rightarrow> Inl (e, s)
                 | Inr (typ, data) \<Rightarrow>
                     if typ \<noteq> ''OK'' then Inr s
                     else sync_messages L M C acct fld (last_1000 (id_list_of data)) s))"

fun sync_folders ::
  "lib \<Rightarrow> mailbox \<Rightarrow> clock \<Rightarrow> account \<Rightarrow> string \<Rightarrow> string list \<Rightarrow> sync_state \<Rightarrow> step_result" where
  "sync_folders L M C acct since [] s = Inr s"
| "sync_folders L M C acct since (fld # flds) s =
     (case sync_folder L M C acct since fld s of
        Inl x \<Rightarrow> Inl x
      | Inr s' \<Rightarrow> sync_folders L M C acct since flds s')"

text \<open>\<open>try: M.logout() except Exception: pass\<close>: the call is made, its failure dropped.\<close>

definition logout :: "mailbox \<Rightarrow> sync_state \<Rightarrow> string option \<times> sync_state" where
  "logout M s = (logout_r M, s\<lparr>calls := calls s @ [Logout]\<rparr>)"

definition try_logout :: "mailbox \<Rightarrow> sync_state \<Rightarrow> sync_state" where
  "try_logout M s = (case logout M s of (None, s') \<Rightarrow> s' | (Some e, s') \<Rightarrow> s')"

text \<open>\<open>folders or ["INBOX"]\<close>\<close>

definition target_folders :: "string list option \<Rightarrow> string list" where
  "target_folders folders =
     (case folders of None \<Rightarrow> [''INBOX''] | Some fs \<Rightarrow> if fs = [] then [''INBOX''] else fs)"

text \<open>
  A run returns the number of inserted records or the HTTP error it raises, and leaves
  the collection and the list of calls made on the session.
\<close>

definition sync_account ::
  "lib \<Rightarrow> mailbox \<Rightarrow> clock \<Rightarrow> account \<Rightarrow> string list option \<Rightarrow> int \<Rightarrow> emails
     \<Rightarrow> (error + nat) \<times> emails \<times> imap_call list" where
  "sync_account L M C acct folders days coll =
     (case connect_imap M (host acct) (port acct) (username acct) (password acct) (use_ssl acct) of
        Inl e \<Rightarrow> (Inl (HTTPException 400 (''IMAP login failed: '' @ e)), coll, [])
      | Inr u \<Rightarrow>
          (let s0 = \<lparr>db = coll, inserted = 0, reads = 0, calls = []\<rparr>;
               run =
                 (case since_date L (now C) days of
                    Inl e \<Rightarrow> Inl (e, s0)
                  | Inr since \<Rightarrow> sync_folders L M C acct since (target_folders folders) s0)
           in case run of
                Inr s \<Rightarrow>
                  (let s' = try_logout M s in (Inr (inserted s), db s', calls s'))
              | Inl (e, s) \<Rightarrow>
                  (let s' = try_logout M s in (Inl (HTTPException 500 e), db s', calls s'))))"

section \<open>Histories of the store\<close>

text \<open>
  The operations that write to \<open>emailmessage\<close>: a sync run, with the mailbox, clock and
  arguments it meets, and the classification override. Runs are sequential.
\<close>

datatype operation =
    Sync mailbox clock account "string list option" int
  | Mark string

fun apply_op :: "lib \<Rightarrow> emails \<Rightarrow> operation \<Rightarrow> emails" where
  "apply_op L coll (Sync M C acct folders days) = fst (snd (sync_account L M C acct folders days coll))"
| "apply_op L coll (Mark email_id) = snd (mark_interested L coll email_id)"

definition apply_ops :: "lib \<Rightarrow> emails \<Rightarrow> operation list \<Rightarrow> emails" where
  "apply_ops L coll ops = foldl (apply_op L) coll ops"

section \<open>Notions of the statements\<close>

text \<open>The state a step leaves, and the exception that escapes it, if any.\<close>

definition state_of :: "step_result \<Rightarrow> sync_state" where
  "state_of r = (case r of Inl (e, s) \<Rightarrow> s | Inr s \<Rightarrow> s)"

definition raised :: "step_result \<Rightarrow> string option" where
  "raised r = (case r of Inl (e, s) \<Rightarrow> Some e | Inr s \<Rightarrow> None)"

text \<open>
  The message that the loop body decodes for a handle: the fetch returns \<open>OK\<close> with
  data whose first tuple carries bytes that are not empty.
\<close>

definition fetched :: "lib \<Rightarrow> mailbox \<Rightarrow> string \<Rightarrow> bytes \<Rightarrow> message option" where
  "fetched L M fld num =
     (case fetch_r M fld num of
        Inl e \<Rightarrow> None
      | Inr (typ, msg_data) \<Rightarrow>
          if typ \<noteq> ''OK'' \<or> msg_data = [] then None
          else
            (case first_raw msg_data of
               None \<Rightarrow> None
             | Some raw \<Rightarrow> if raw = [] then None else Some (message_from_bytes L raw)))"

text \<open>The number of stored records with a given pair of account and message identifier.\<close>

definition key_count :: "emails \<Rightarrow> string \<Rightarrow> string \<Rightarrow> nat" where
  "key_count coll aid mid =
     length (filter (\<lambda>(i, d). account_id d = aid \<and> message_id d = mid) coll)"

text \<open>
  The test that the decoder makes on the disposition of a part: the text of the
  \<open>Content-Disposition\<close> header (the text \<open>None\<close> without one) has \<open>attachment\<close> in it,
  in these lower-case letters, anywhere.
\<close>

definition names_attachment :: "mime \<Rightarrow> bool" where
  "names_attachment p = sublist ''attachment'' (str_opt (content_disposition p))"




text \<open>
  Two texts that agree up to bytes outside ASCII: they have the same length, and where
  they differ both have a byte of a character outside ASCII (a byte with the high bit
  set).
\<close>

definition is_ascii :: "char \<Rightarrow> bool" where
  "is_ascii c = (\<not> digit7 c)"

definition same_ascii :: "string \<Rightarrow> string \<Rightarrow> bool" where
  "same_ascii u v = list_all2 (\<lambda>a b. a = b \<or> (\<not> is_ascii a \<and> \<not> is_ascii b)) u v"

text \<open>
  A folder that the loop skips: its selection raises, or its search returns a status
  other than \<open>OK\<close>.
\<close>

definition skipped :: "mailbox \<Rightarrow> string \<Rightarrow> string \<Rightarrow> bool" where
  "skipped M since fld =
     (select_r M fld \<noteq> None
      \<or> (case search_r M fld (search_criterion since) of
            Inl e \<Rightarrow> False
          | Inr (typ, data) \<Rightarrow> typ \<noteq> ''OK''))"

text \<open>
  The state a run starts from, and the session being opened: \<open>connect_imap\<close> returns.
\<close>

definition start_state :: "emails \<Rightarrow> sync_state" where
  "start_state coll = \<lparr>db = coll, inserted = 0, reads = 0, calls = []\<rparr>"

definition connected :: "mailbox \<Rightarrow> account \<Rightarrow> bool" where
  "connected M a = (connect_imap M (host a) (port a) (username a) (password a) (use_ssl a) = Inr ())"

text \<open>The state with one more call recorded: a fetch, a selection, a selection and a search.\<close>

definition fetch_call :: "bytes \<Rightarrow> sync_state \<Rightarrow> sync_state" where
  "fetch_call num s = s\<lparr>calls := calls s @ [Fetch num ''(RFC822 UID)'']\<rparr>"

definition select_call :: "string \<Rightarrow> sync_state \<Rightarrow> sync_state" where
  "select_call f s = s\<lparr>calls := calls s @ [Select f]\<rparr>"

definition search_call :: "string \<Rightarrow> string \<Rightarrow> sync_state \<Rightarrow> sync_state" where
  "search_call since f s = s\<lparr>calls := calls s @ [Select f, Search (search_criterion since)]\<rparr>"

text \<open>
  A handle is settled in a collection when the message it gives, if it gives one, has
  its key stored there for the account.
\<close>

definition settled :: "lib \<Rightarrow> mailbox \<Rightarrow> account \<Rightarrow> string \<Rightarrow> bytes \<Rightarrow> emails \<Rightarrow> bool" where
  "settled L M a f n coll =
     (case fetched L M f n of
        None \<Rightarrow> True
      | Some msg \<Rightarrow> find_by_key coll (message_key L msg n f (username a)) (acc_id a) \<noteq> None)"

text \<open>
  What a state holds besides the list of calls, and what a step gives besides it. A
  state extends another quietly when it differs by calls only, none of them a logout.
\<close>

definition data_of :: "sync_state \<Rightarrow> emails \<times> nat \<times> nat" where
  "data_of s = (db s, inserted s, reads s)"

definition res_data :: "step_result \<Rightarrow> string option \<times> emails \<times> nat \<times> nat" where
  "res_data r = (raised r, data_of (state_of r))"

definition quiet_ext :: "sync_state \<Rightarrow> sync_state \<Rightarrow> bool" where
  "quiet_ext s s' = (data_of s' = data_of s \<and> (\<exists>cs. calls s' = calls s @ cs \<and> Logout \<notin> set cs))"

section \<open>An example environment\<close>

text \<open>
  A small library, mailbox, clock and two accounts on which the model runs. The library
  of the example is for ASCII text, where its functions return what Python's return:
  \<open>ascii_lower\<close> maps \<open>A\<close>..\<open>Z\<close> to \<open>a\<close>..\<open>z\<close>, white space is the ASCII white space of
  \<open>str.split()\<close> and \<open>str.strip()\<close>, a slice takes bytes, and an identifier is a text of
  24 hexadecimal digits, kept in lower case. The parser of the example reads the bytes
  up to the first line feed as the \<open>Message-ID\<close> header and the rest as a plain text
  body.
\<close>

definition ascii_lower_char :: "char \<Rightarrow> char" where
  "ascii_lower_char c =
     (case map_of (zip ''ABCDEFGHIJKLMNOPQRSTUVWXYZ'' ''abcdefghijklmnopqrstuvwxyz'') c of
        None \<Rightarrow> c
      | Some l \<Rightarrow> l)"

definition ascii_lower :: "string \<Rightarrow> string" where
  "ascii_lower s = map ascii_lower_char s"

definition ascii_space :: "char \<Rightarrow> bool" where
  "ascii_space c =
     (c \<in> set [CHR 0x09, CHR 0x0A, CHR 0x0B, CHR 0x0C, CHR 0x0D,
                CHR 0x1C, CHR 0x1D, CHR 0x1E, CHR 0x1F, CHR 0x20])"

definition ascii_strip :: "string \<Rightarrow> string" where
  "ascii_strip s = rev (dropWhile ascii_space (rev (dropWhile ascii_space s)))"

definition hex_object_id :: "string \<Rightarrow> oid option" where
  "hex_object_id s =
     (if length s = 24 \<and> list_all (\<lambda>c. c \<in> set ''0123456789abcdefABCDEF'') s
      then Some (ascii_lower s) else None)"

definition ex_lib :: lib where
  "ex_lib =
     \<lparr>str_lower = ascii_lower,
      str_split = split_from ascii_space [],
      str_strip = ascii_strip,
      str_take = take,
      utf8_ignore = (\<lambda>b. b),
      decode_header = (\<lambda>s. Some s),
      parsedate_to_datetime = (\<lambda>s. None),
      message_from_bytes =
        (\<lambda>b. \<lparr>msg_headers = [(''Message-ID'', takeWhile (\<lambda>c. c \<noteq> CHR 0x0A) b)],
              msg_content = Leaf ''text/plain'' None (drop 1 (dropWhile (\<lambda>c. c \<noteq> CHR 0x0A) b))\<rparr>),
      since_date = (\<lambda>t days. Inr ''01-Jan-2024''),
      object_id = hex_object_id,
      new_object_id = (\<lambda>n. replicate (24 - n) CHR ''a'' @ replicate n CHR ''b'')\<rparr>"

text \<open>
  The mailbox has the folders \<open>INBOX\<close> and \<open>Archive\<close>, each with the same message. The
  selection of \<open>Gone\<close> raises; the search in \<open>Locked\<close> is answered \<open>NO\<close>; the selection
  of \<open>Missing\<close> is answered \<open>NO\<close> without an exception, and the search that follows
  raises, the session being in no folder.
\<close>

definition ex_mailbox :: mailbox where
  "ex_mailbox =
     \<lparr>open_r = (\<lambda>ssl h p. None),
      login_r = (\<lambda>u p. None),
      select_r = (\<lambda>f. if f = ''Gone'' then Some ''no such folder'' else None),
      search_r =
        (\<lambda>f c. if f = ''INBOX'' \<or> f = ''Archive'' then Inr (''OK'', [Some ''1''])
               else if f = ''Missing'' then Inl ''command SEARCH illegal in state AUTH''
               else Inr (''NO'', [None])),
      fetch_r = (\<lambda>f n. Inr (''OK'', [Tuple ''1 (RFC822 {9}'' (''<m1@x>'' @ [CHR 0x0A] @ ''hi''), Plain '')''])),
      logout_r = Some ''already closed''\<rparr>"

definition ex_clock :: clock where
  "ex_clock = \<lparr>now = 1000, utcnow = (\<lambda>n. 2000 + int n)\<rparr>"

definition ex_account :: account where
  "ex_account =
     \<lparr>acc_id = ''acc1'', host = ''imap.example.org'', port = 993, username = ''ann'',
      password = ''secret'', use_ssl = True\<rparr>"

definition ex_account2 :: account where
  "ex_account2 = ex_account\<lparr>acc_id := ''acc2'', username := ''bob''\<rparr>"



section \<open>Classifier: priority of the rules\<close>

lemma any_in_unsubscribe: "sublist ''unsubscribe'' t \<Longrightarrow> any_in not_interested_terms t"
  by (simp add: any_in_def not_interested_terms_def)

text \<open>
  C3, as the code has it. A text with both \<open>unsubscribe\<close> and \<open>interested\<close> is never
  classified \<open>Interested\<close>: the second rule answers \<open>Not Interested\<close> before the fourth
  is reached, unless the first rule has already answered \<open>Out of Office\<close>.
\<close>

theorem classify_unsubscribe_interested:
  assumes "sublist ''unsubscribe'' (email_text L subj body)"
    and "sublist ''interested'' (email_text L subj body)"
  shows "categorize_email L subj body =
           (if any_in out_of_office_terms (email_text L subj body)
            then Some ''Out of Office'' else Some ''Not Interested'')
         \<and> categorize_email L subj body \<noteq> Some ''Interested''"
  using any_in_unsubscribe[OF assms(1)]
  by (simp add: categorize_email_def categorize_text_def)

theorem classify_unsubscribe_interested_witness:
  "sublist ''unsubscribe'' (email_text ex_lib None (Some ''Please UNSUBSCRIBE me. Interested? No.''))
   \<and> sublist ''interested'' (email_text ex_lib None (Some ''Please UNSUBSCRIBE me. Interested? No.''))
   \<and> categorize_email ex_lib None (Some ''Please UNSUBSCRIBE me. Interested? No.'')
       = Some ''Not Interested''"
proof -
  have a: "sublist ''unsubscribe''
             (email_text ex_lib None (Some ''Please UNSUBSCRIBE me. Interested? No.''))"
    by code_simp
  have b: "sublist ''interested''
             (email_text ex_lib None (Some ''Please UNSUBSCRIBE me. Interested? No.''))"
    by code_simp
  have c: "\<not> any_in out_of_office_terms
             (email_text ex_lib None (Some ''Please UNSUBSCRIBE me. Interested? No.''))"
    by code_simp
  from classify_unsubscribe_interested[OF a b] a b c show ?thesis by simp
qed

text \<open>
  The claim C3 as it is stated fails on an automatic reply that carries both words: the
  first rule wins and the answer is \<open>Out of Office\<close>.
\<close>

theorem classify_unsubscribe_interested_counterexample:
  "sublist ''unsubscribe''
     (email_text ex_lib (Some ''Automatic reply: Offer'')
        (Some ''Unsubscribe me if you are interested''))
   \<and> sublist ''interested''
     (email_text ex_lib (Some ''Automatic reply: Offer'')
        (Some ''Unsubscribe me if you are interested''))
   \<and> categorize_email ex_lib (Some ''Automatic reply: Offer'')
        (Some ''Unsubscribe me if you are interested'') = Some ''Out of Office''
   \<and> categorize_email ex_lib (Some ''Automatic reply: Offer'')
        (Some ''Unsubscribe me if you are interested'') \<noteq> Some ''Not Interested''"
  by code_simp

section \<open>Classifier: the conjunction of the third rule\<close>

text \<open>
  A keyword that occurs in \<open>t @ s\<close> occurs in \<open>t\<close> already when it does not occur in \<open>s\<close>
  and none of its endings begins \<open>s\<close>.
\<close>

lemma sublist_append_keep:
  assumes "sublist k (t @ s)" and "\<not> sublist k s"
    and "\<not> list_ex (\<lambda>p. p \<noteq> [] \<and> suffix p k) (prefixes s)"
  shows "sublist k t"
proof -
  from assms(1,2) consider "sublist k t"
    | xs1 xs2 where "k = xs1 @ xs2" "suffix xs1 t" "prefix xs2 s"
    by (auto simp: sublist_append)
  then show ?thesis
  proof cases
    case 1
    then show ?thesis .
  next
    case 2
    show ?thesis
    proof (cases "xs2 = []")
      case True
      with 2 have "suffix k t" by simp
      then show ?thesis by (rule suffix_imp_sublist)
    next
      case False
      with 2 have "xs2 \<in> set (prefixes s)" "xs2 \<noteq> []" "suffix xs2 k"
        by (auto simp: suffix_def)
      with assms(3) show ?thesis by (auto simp: list_ex_iff)
    qed
  qed
qed

lemma calendly_clear:
  "list_all (\<lambda>k. \<not> sublist k ''calendly''
               \<and> \<not> list_ex (\<lambda>p. p \<noteq> [] \<and> suffix p k) (prefixes ''calendly''))
     (out_of_office_terms @ not_interested_terms)"
  by code_simp

lemma calendly_keeps:
  assumes "k \<in> set out_of_office_terms \<or> k \<in> set not_interested_terms"
    and "sublist k (t @ ''calendly'')"
  shows "sublist k t"
proof -
  from assms(1) have "k \<in> set (out_of_office_terms @ not_interested_terms)" by auto
  with calendly_clear
  have "\<not> sublist k ''calendly''"
    "\<not> list_ex (\<lambda>p. p \<noteq> [] \<and> suffix p k) (prefixes ''calendly'')"
    unfolding list_all_iff by blast+
  with assms(2) show ?thesis by (rule sublist_append_keep)
qed

lemma any_in_calendly:
  "any_in out_of_office_terms (t @ ''calendly'') \<Longrightarrow> any_in out_of_office_terms t"
  "any_in not_interested_terms (t @ ''calendly'') \<Longrightarrow> any_in not_interested_terms t"
  unfolding any_in_def list_ex_iff using calendly_keeps[of _ t] by blast+

text \<open>
  Texts that agree up to bytes outside ASCII have the same ASCII keywords: the bytes of
  an occurrence are ASCII, so they are the same bytes in both.
\<close>

lemma same_ascii_sym: "same_ascii u v \<Longrightarrow> same_ascii v u"
  unfolding same_ascii_def list_all2_conv_all_nth by auto

lemma same_ascii_eq:
  "list_all2 (\<lambda>a b. a = b \<or> (\<not> is_ascii a \<and> \<not> is_ascii b)) k k' \<Longrightarrow> list_all is_ascii k
     \<Longrightarrow> k' = k"
  by (induction k k' rule: list_all2_induct) auto

lemma same_ascii_sublist:
  assumes "list_all is_ascii k" and "same_ascii u v" and "sublist k u"
  shows "sublist k v"
proof -
  let ?R = "\<lambda>a b. a = b \<or> (\<not> is_ascii a \<and> \<not> is_ascii b)"
  from assms(3) obtain ps ss where u: "u = ps @ k @ ss" by (auto simp: sublist_def)
  from assms(2) have "list_all2 ?R (ps @ k @ ss) v" by (simp add: same_ascii_def u)
  then obtain ps' r where v: "v = ps' @ r" and r: "list_all2 ?R (k @ ss) r"
    by (auto simp: list_all2_append1)
  from r obtain k' ss' where r': "r = k' @ ss'" and k': "list_all2 ?R k k'"
    by (auto simp: list_all2_append1)
  from k' assms(1) have "k' = k" by (rule same_ascii_eq)
  with v r' show ?thesis by (auto simp: sublist_def)
qed

lemma same_ascii_any_in:
  assumes "list_all (list_all is_ascii) ks" and "same_ascii u v"
  shows "any_in ks u = any_in ks v"
  using assms same_ascii_sublist[of _ u v] same_ascii_sublist[of _ v u] same_ascii_sym[of u v]
  unfolding any_in_def list_ex_iff list_all_iff by blast

lemma keywords_ascii:
  "list_all (list_all is_ascii) out_of_office_terms"
  "list_all (list_all is_ascii) not_interested_terms"
  "list_all (list_all is_ascii) meeting_intent_terms"
  "list_all (list_all is_ascii) meeting_artifact_terms"
  by code_simp+

text \<open>When the third rule answers: the first two do not, and both of its tests hold.\<close>

lemma meeting_booked_iff:
  "(categorize_text t = Some ''Meeting Booked'') =
     (\<not> any_in out_of_office_terms t \<and> \<not> any_in not_interested_terms t
      \<and> any_in meeting_intent_terms t \<and> any_in meeting_artifact_terms t)"
  by (simp add: categorize_text_def)

text \<open>
  C4. A message whose text has \<open>meeting\<close>, none of the scheduling terms of the third
  rule and no keyword of another rule has no category; the same message with
  \<open>calendly\<close> added at the end of its body is \<open>Meeting Booked\<close>. The third rule needs
  both of its tests: whatever the message \<open>s\<close>, \<open>b\<close>, the answer is \<open>Meeting Booked\<close>
  exactly when the first two rules are silent and the text has a term of meeting intent
  and a scheduling term.

  \<open>str.lower()\<close> is a function of the library. It works character by character, but for
  the capital sigma, whose lower-case form depends on the letters around it and is a
  character outside ASCII either way; so the last hypothesis, that the text of the longer
  message is the text of the shorter one followed by \<open>calendly\<close> up to bytes outside
  ASCII, holds of it for every message.
\<close>

theorem meeting_booked_conjunction:
  assumes "sublist ''meeting'' (email_text L subj body)"
    and "\<not> any_in meeting_artifact_terms (email_text L subj body)"
    and "\<not> any_in out_of_office_terms (email_text L subj body)"
    and "\<not> any_in not_interested_terms (email_text L subj body)"
    and "\<not> any_in interested_terms (email_text L subj body)"
    and "\<not> any_in spam_terms (email_text L subj body)"
    and "same_ascii (email_text L subj (Some (or_empty body @ ''calendly'')))
           (email_text L subj body @ ''calendly'')"
  shows "categorize_email L subj body = None
         \<and> categorize_email L subj (Some (or_empty body @ ''calendly'')) = Some ''Meeting Booked''
         \<and> ((categorize_email L s b = Some ''Meeting Booked'') =
              (\<not> any_in out_of_office_terms (email_text L s b)
               \<and> \<not> any_in not_interested_terms (email_text L s b)
               \<and> any_in meeting_intent_terms (email_text L s b)
               \<and> any_in meeting_artifact_terms (email_text L s b)))"
proof -
  let ?t = "email_text L subj body"
  let ?t' = "email_text L subj (Some (or_empty body @ ''calendly''))"
  have none: "categorize_email L subj body = None"
    using assms(1-6) by (simp add: categorize_email_def categorize_text_def)
  have intent: "any_in meeting_intent_terms (?t @ ''calendly'')"
    using assms(1) by (simp add: any_in_def meeting_intent_terms_def sublist_append)
  have artifact: "any_in meeting_artifact_terms (?t @ ''calendly'')"
    by (simp add: any_in_def meeting_artifact_terms_def)
  have r1: "\<not> any_in out_of_office_terms (?t @ ''calendly'')"
    using assms(3) any_in_calendly(1) by blast
  have r2: "\<not> any_in not_interested_terms (?t @ ''calendly'')"
    using assms(4) any_in_calendly(2) by blast
  have "any_in meeting_intent_terms ?t'" "any_in meeting_artifact_terms ?t'"
    "\<not> any_in out_of_office_terms ?t'" "\<not> any_in not_interested_terms ?t'"
    using intent artifact r1 r2 same_ascii_any_in[OF keywords_ascii(1) assms(7)]
      same_ascii_any_in[OF keywords_ascii(2) assms(7)]
      same_ascii_any_in[OF keywords_ascii(3) assms(7)]
      same_ascii_any_in[OF keywords_ascii(4) assms(7)]
    by simp_all
  then have booked: "categorize_email L subj (Some (or_empty body @ ''calendly''))
      = Some ''Meeting Booked''"
    by (simp add: categorize_email_def meeting_booked_iff)
  from none booked show ?thesis
    by (simp only: categorize_email_def meeting_booked_iff simp_thms)
qed

theorem meeting_booked_conjunction_witness:
  "categorize_email ex_lib (Some ''Catch up'') (Some ''Shall we have a meeting? '') = None
   \<and> categorize_email ex_lib (Some ''Catch up'')
        (Some (''Shall we have a meeting? '' @ ''calendly'')) = Some ''Meeting Booked''
   \<and> any_in meeting_artifact_terms (email_text ex_lib (Some ''Here is the link'') None)
   \<and> categorize_email ex_lib (Some ''Here is the link'') None \<noteq> Some ''Meeting Booked''"
proof -
  let ?t = "email_text ex_lib (Some ''Catch up'') (Some ''Shall we have a meeting? '')"
  have 1: "sublist ''meeting'' ?t" by code_simp
  have 2: "\<not> any_in meeting_artifact_terms ?t" by code_simp
  have 3: "\<not> any_in out_of_office_terms ?t" by code_simp
  have 4: "\<not> any_in not_interested_terms ?t" by code_simp
  have 5: "\<not> any_in interested_terms ?t" by code_simp
  have 6: "\<not> any_in spam_terms ?t" by code_simp
  have 7: "same_ascii
      (email_text ex_lib (Some ''Catch up'')
         (Some (or_empty (Some ''Shall we have a meeting? '') @ ''calendly'')))
      (?t @ ''calendly'')"
    by code_simp
  have 8: "\<not> any_in meeting_intent_terms (email_text ex_lib (Some ''Here is the link'') None)"
    by code_simp
  have 9: "any_in meeting_artifact_terms (email_text ex_lib (Some ''Here is the link'') None)"
    by code_simp
  from meeting_booked_conjunction[OF 1 2 3 4 5 6 7, of "Some ''Here is the link''" None] 8 9
  show ?thesis by (simp add: or_empty_def)
qed

section \<open>Decoder: which part gives the body\<close>





text \<open>
  The test on the disposition is on the letters of the header as they are: a header that
  spells the disposition with a capital letter passes as no attachment, and an inline
  part whose file name has the word in it counts as one.
\<close>

lemma names_attachment_literal:
  "\<not> names_attachment (Leaf ''text/plain'' (Some ''Attachment; filename=a.txt'') ''second'')
   \<and> names_attachment (Leaf ''text/plain'' (Some ''inline; filename=attachment.txt'') ''second'')
   \<and> \<not> names_attachment (Leaf ''text/plain'' None ''second'')"
  by code_simp




section \<open>The run, step by step\<close>

text \<open>
  What one round of each loop does, case by case, and what the loops preserve. These
  lemmas carry the statements about runs below.
\<close>

lemma sync_message_raise:
  "fetch_r M f n = Inl e \<Longrightarrow> sync_message L M C a f n s = Inl (e, fetch_call n s)"
  by (simp add: sync_message_def fetch_call_def)

lemma fetched_raise: "fetch_r M f n = Inl e \<Longrightarrow> fetched L M f n = None"
  by (simp add: fetched_def)

lemma sync_message_unfetched:
  "fetch_r M f n = Inr x \<Longrightarrow> fetched L M f n = None \<Longrightarrow>
     sync_message L M C a f n s = Inr (fetch_call n s)"
  by (cases x) (auto simp: sync_message_def fetch_call_def fetched_def Let_def split: option.splits if_splits)

lemma sync_message_existing:
  "fetched L M f n = Some msg \<Longrightarrow>
   find_by_key (db s) (message_key L msg n f (username a)) (acc_id a) \<noteq> None \<Longrightarrow>
     sync_message L M C a f n s = Inr (fetch_call n s)"
  by (auto simp: sync_message_def fetch_call_def fetched_def Let_def split: option.splits if_splits sum.splits prod.splits)

lemma sync_message_insert:
  assumes "fetched L M f n = Some msg"
    and "find_by_key (db s) (message_key L msg n f (username a)) (acc_id a) = None"
  shows "\<exists>doc. sync_message L M C a f n s =
            Inr ((fetch_call n s)\<lparr>db := db s @ [(new_object_id L (length (db s)), doc)],
                                 inserted := Suc (inserted s),
                                 reads := (if parse_date L msg = None then Suc (Suc (Suc (reads s))) else Suc (Suc (reads s)))\<rparr>)
          \<and> account_id doc = acc_id a
          \<and> message_id doc = message_key L msg n f (username a)
          \<and> uid doc = None
          \<and> folder doc = f
          \<and> date doc = (case parse_date L msg of None \<Rightarrow> utcnow C (reads s) | Some d \<Rightarrow> d)"
  using assms
  by (auto simp: sync_message_def fetch_call_def fetched_def Let_def insert_one_def
           split: option.splits if_splits sum.splits prod.splits)


lemma state_of_simps [simp]: "state_of (Inl (e, s)) = s" "state_of (Inr s) = s"
  by (simp_all add: state_of_def)

lemma raised_simps [simp]: "raised (Inl (e, s)) = Some e" "raised (Inr s) = None"
  by (simp_all add: raised_def)

lemma fetch_call_simps [simp]:
  "db (fetch_call n s) = db s" "inserted (fetch_call n s) = inserted s"
  "reads (fetch_call n s) = reads s" "calls (fetch_call n s) = calls s @ [Fetch n ''(RFC822 UID)'']"
  by (simp_all add: fetch_call_def)

lemma find_by_key_append:
  "find_by_key (xs @ ys) mid aid =
     (case find_by_key xs mid aid of None \<Rightarrow> find_by_key ys mid aid | Some x \<Rightarrow> Some x)"
  unfolding find_by_key_def by (induction xs) auto

lemma find_by_key_last:
  "account_id d = aid \<Longrightarrow> message_id d = mid \<Longrightarrow> find_by_key (xs @ [(i, d)]) mid aid \<noteq> None"
  by (simp add: find_by_key_append split: option.splits) (simp add: find_by_key_def)

lemma settled_prefix: "settled L M a f n coll \<Longrightarrow> prefix coll coll' \<Longrightarrow> settled L M a f n coll'"
  by (auto simp: settled_def prefix_def find_by_key_append split: option.splits)

lemma sync_message_cases [case_names raise skip insert]:
  obtains e where "fetch_r M f n = Inl e" "sync_message L M C a f n s = Inl (e, fetch_call n s)"
  | x where "fetch_r M f n = Inr x" "settled L M a f n (db s)"
      "sync_message L M C a f n s = Inr (fetch_call n s)"
  | x msg doc where "fetch_r M f n = Inr x" "fetched L M f n = Some msg"
      "find_by_key (db s) (message_key L msg n f (username a)) (acc_id a) = None"
      "sync_message L M C a f n s =
         Inr ((fetch_call n s)\<lparr>db := db s @ [(new_object_id L (length (db s)), doc)],
                              inserted := Suc (inserted s),
                              reads := (if parse_date L msg = None then Suc (Suc (Suc (reads s)))
                                        else Suc (Suc (reads s)))\<rparr>)"
      "account_id doc = acc_id a" "message_id doc = message_key L msg n f (username a)"
      "uid doc = None" "folder doc = f"
      "date doc = (case parse_date L msg of None \<Rightarrow> utcnow C (reads s) | Some d \<Rightarrow> d)"
proof (cases "fetch_r M f n")
  case (Inl e)
  with sync_message_raise[OF Inl] that(1) show ?thesis by blast
next
  case (Inr x)
  show ?thesis
  proof (cases "fetched L M f n")
    case None
    with Inr sync_message_unfetched[OF Inr None] that(2) show ?thesis by (simp add: settled_def)
  next
    case (Some msg)
    show ?thesis
    proof (cases "find_by_key (db s) (message_key L msg n f (username a)) (acc_id a) = None")
      case True
      from sync_message_insert[OF Some True, of C] Inr Some True that(3) show ?thesis by blast
    next
      case False
      with Inr Some sync_message_existing[OF Some False] that(2) show ?thesis
        by (simp add: settled_def)
    qed
  qed
qed

lemma sync_message_raised:
  "raised (sync_message L M C a f n s) = (case fetch_r M f n of Inl e \<Rightarrow> Some e | Inr x \<Rightarrow> None)"
  by (cases rule: sync_message_cases[of M f n L C a s]) auto

lemma sync_message_calls:
  "calls (state_of (sync_message L M C a f n s)) = calls s @ [Fetch n ''(RFC822 UID)'']"
  by (cases rule: sync_message_cases[of M f n L C a s]) auto

lemma sync_message_prefix: "prefix (db s) (db (state_of (sync_message L M C a f n s)))"
  by (cases rule: sync_message_cases[of M f n L C a s]) auto

lemma sync_message_settles:
  "sync_message L M C a f n s = Inr s' \<Longrightarrow> settled L M a f n (db s')"
proof (cases rule: sync_message_cases[of M f n L C a s])
  case (raise e)
  assume "sync_message L M C a f n s = Inr s'"
  with raise show ?thesis by simp
next
  case (skip x)
  assume "sync_message L M C a f n s = Inr s'"
  with skip have "db s' = db s" by auto
  with skip(2) show ?thesis by simp
next
  case (insert x msg doc)
  assume "sync_message L M C a f n s = Inr s'"
  with insert(4) have "db s' = db s @ [(new_object_id L (length (db s)), doc)]" by auto
  moreover from insert(5,6)
  have "find_by_key (db s @ [(new_object_id L (length (db s)), doc)])
          (message_key L msg n f (username a)) (acc_id a) \<noteq> None"
    by (intro find_by_key_last) simp_all
  ultimately show ?thesis using insert(2) by (simp add: settled_def)
qed

lemma sync_message_settled:
  assumes "settled L M a f n (db t)"
  shows "raised (sync_message L M C a f n t) = (case fetch_r M f n of Inl e \<Rightarrow> Some e | Inr x \<Rightarrow> None)
       \<and> data_of (state_of (sync_message L M C a f n t)) = data_of t"
  using assms
  by (cases rule: sync_message_cases[of M f n L C a t]) (auto simp: data_of_def settled_def)

lemma sync_message_calls_indep:
  "res_data (sync_message L M C a f n (s\<lparr>calls := c\<rparr>)) = res_data (sync_message L M C a f n s)"
  by (auto simp: sync_message_def res_data_def data_of_def Let_def
           split: option.splits if_splits sum.splits prod.splits)

lemma data_of_eq: "data_of s = data_of t \<Longrightarrow> t = s\<lparr>calls := calls t\<rparr>"
  by (cases s, cases t) (simp add: data_of_def)

lemma sync_message_data:
  assumes "data_of s = data_of t"
  shows "res_data (sync_message L M C a f n s) = res_data (sync_message L M C a f n t)"
proof -
  from assms have "t = s\<lparr>calls := calls t\<rparr>" by (rule data_of_eq)
  then have "res_data (sync_message L M C a f n t) = res_data (sync_message L M C a f n (s\<lparr>calls := calls t\<rparr>))"
    by simp
  then show ?thesis by (simp add: sync_message_calls_indep)
qed

lemma sync_message_inv:
  assumes "I (db s)"
    and "\<And>coll i doc. I coll \<Longrightarrow> account_id doc = acc_id a \<Longrightarrow> uid doc = None \<Longrightarrow>
            find_by_key coll (message_id doc) (acc_id a) = None \<Longrightarrow> I (coll @ [(i, doc)])"
  shows "I (db (state_of (sync_message L M C a f n s)))"
  using assms
  by (cases rule: sync_message_cases[of M f n L C a s]) auto



lemma select_call_simps [simp]:
  "db (select_call f s) = db s" "inserted (select_call f s) = inserted s"
  "reads (select_call f s) = reads s" "calls (select_call f s) = calls s @ [Select f]"
  by (simp_all add: select_call_def)

lemma search_call_simps [simp]:
  "db (search_call since f s) = db s" "inserted (search_call since f s) = inserted s"
  "reads (search_call since f s) = reads s"
  "calls (search_call since f s) = calls s @ [Select f, Search (search_criterion since)]"
  by (simp_all add: search_call_def)

lemma data_of_calls [simp]:
  "data_of (fetch_call n s) = data_of s" "data_of (select_call f s) = data_of s"
  "data_of (search_call since f s) = data_of s"
  by (simp_all add: data_of_def)

lemma sync_messages_lift:
  assumes "P s" and "\<And>n s. P s \<Longrightarrow> P (state_of (sync_message L M C a f n s))"
  shows "P (state_of (sync_messages L M C a f ns s))"
  using assms(1)
proof (induction ns arbitrary: s)
  case Nil
  then show ?case by simp
next
  case (Cons n ns)
  from assms(2)[OF Cons.prems, of n] have P1: "P (state_of (sync_message L M C a f n s))" .
  show ?case
  proof (cases "sync_message L M C a f n s")
    case (Inl x)
    with P1 show ?thesis by simp
  next
    case (Inr s1)
    with P1 have "P s1" by simp
    from Cons.IH[OF this] Inr show ?thesis by simp
  qed
qed

lemma sync_messages_prefix: "prefix (db s) (db (state_of (sync_messages L M C a f ns s)))"
proof -
  have "prefix (db s) (db (state_of (sync_messages L M C a f ns s)))"
  proof (rule sync_messages_lift[where P = "\<lambda>t. prefix (db s) (db t)"])
    show "prefix (db s) (db s)" by simp
  next
    fix n and t :: sync_state
    assume "prefix (db s) (db t)"
    with sync_message_prefix[of t L M C a f n]
    show "prefix (db s) (db (state_of (sync_message L M C a f n t)))"
      by (rule prefix_order.trans[rotated])
  qed
  then show ?thesis .
qed

lemma sync_messages_data:
  assumes "data_of s = data_of t"
  shows "res_data (sync_messages L M C a f ns s) = res_data (sync_messages L M C a f ns t)"
  using assms
proof (induction ns arbitrary: s t)
  case Nil
  then show ?case by (simp add: res_data_def)
next
  case (Cons n ns)
  from sync_message_data[OF Cons.prems, of L M C a f n]
  have eq: "res_data (sync_message L M C a f n s) = res_data (sync_message L M C a f n t)" .
  show ?case
  proof (cases "sync_message L M C a f n s")
    case (Inl x)
    obtain e s1 where x: "x = (e, s1)" by (cases x)
    with Inl eq obtain t1 where "sync_message L M C a f n t = Inl (e, t1)" "data_of s1 = data_of t1"
      by (cases "sync_message L M C a f n t") (auto simp: res_data_def)
    with Inl x show ?thesis by (simp add: res_data_def)
  next
    case (Inr s1)
    with eq obtain t1 where t1: "sync_message L M C a f n t = Inr t1" "data_of s1 = data_of t1"
      by (cases "sync_message L M C a f n t") (auto simp: res_data_def)
    from Cons.IH[OF t1(2)] Inr t1(1) show ?thesis by simp
  qed
qed

lemma sync_messages_replay:
  assumes "prefix (db (state_of (sync_messages L M C a f ns s))) (db t)"
  shows "raised (sync_messages L M C' a f ns t) = raised (sync_messages L M C a f ns s)
       \<and> data_of (state_of (sync_messages L M C' a f ns t)) = data_of t"
  using assms
proof (induction ns arbitrary: s t)
  case Nil
  then show ?case by simp
next
  case (Cons n ns)
  show ?case
  proof (cases "sync_message L M C a f n s")
    case (Inl x)
    obtain e s1 where x: "x = (e, s1)" by (cases x)
    with Inl have "raised (sync_message L M C a f n s) = Some e" by simp
    then have "fetch_r M f n = Inl e"
      by (simp add: sync_message_raised split: sum.splits)
    then have "sync_message L M C' a f n t = Inl (e, fetch_call n t)"
      by (rule sync_message_raise)
    with Inl x show ?thesis by simp
  next
    case (Inr s1)
    then have st: "settled L M a f n (db s1)" by (rule sync_message_settles)
    from Inr have run: "sync_messages L M C a f (n # ns) s = sync_messages L M C a f ns s1" by simp
    have "prefix (db s1) (db (state_of (sync_messages L M C a f ns s1)))"
      by (rule sync_messages_prefix)
    with Cons.prems run have "prefix (db s1) (db t)" by (metis prefix_order.trans)
    with st have "settled L M a f n (db t)" by (rule settled_prefix)
    from sync_message_settled[OF this, of C']
    have t: "raised (sync_message L M C' a f n t) = (case fetch_r M f n of Inl e \<Rightarrow> Some e | Inr x \<Rightarrow> None)"
      "data_of (state_of (sync_message L M C' a f n t)) = data_of t" by simp_all
    from Inr have "raised (sync_message L M C a f n s) = None" by simp
    then have "raised (sync_message L M C' a f n t) = None"
      using t(1) by (simp add: sync_message_raised)
    then obtain t1 where t1: "sync_message L M C' a f n t = Inr t1"
      by (cases "sync_message L M C' a f n t") auto
    with t(2) have dt: "data_of t1 = data_of t" by simp
    then have "db t1 = db t" by (simp add: data_of_def)
    with Cons.prems run have "prefix (db (state_of (sync_messages L M C a f ns s1))) (db t1)" by simp
    from Cons.IH[OF this] t1 run dt show ?thesis by simp
  qed
qed

lemma sync_folder_cases [case_names skip raise run]:
  obtains s' where "skipped M since f" "sync_folder L M C a since f s = Inr s'"
      "data_of s' = data_of s" "\<exists>cs. calls s' = calls s @ cs \<and> Logout \<notin> set cs"
  | e where "\<not> skipped M since f" "search_r M f (search_criterion since) = Inl e"
      "sync_folder L M C a since f s = Inl (e, search_call since f s)"
  | dat where "\<not> skipped M since f" "search_r M f (search_criterion since) = Inr (''OK'', dat)"
      "sync_folder L M C a since f s =
         sync_messages L M C a f (last_1000 (id_list_of dat)) (search_call since f s)"
proof (cases "select_r M f")
  case (Some e)
  then have "skipped M since f" by (simp add: skipped_def)
  moreover from Some have "sync_folder L M C a since f s = Inr (select_call f s)"
    by (simp add: sync_folder_def select_call_def)
  ultimately show ?thesis using that(1)[of "select_call f s"] by simp
next
  case None
  show ?thesis
  proof (cases "search_r M f (search_criterion since)")
    case (Inl e)
    with None have "\<not> skipped M since f" by (simp add: skipped_def)
    moreover from None Inl have "sync_folder L M C a since f s = Inl (e, search_call since f s)"
      by (simp add: sync_folder_def search_call_def)
    ultimately show ?thesis using that(2) Inl by blast
  next
    case (Inr x)
    obtain ty dat where x: "x = (ty, dat)" by (cases x)
    show ?thesis
    proof (cases "ty = ''OK''")
      case True
      with None Inr x have "\<not> skipped M since f" by (simp add: skipped_def)
      moreover from None Inr x True
      have "sync_folder L M C a since f s =
         sync_messages L M C a f (last_1000 (id_list_of dat)) (search_call since f s)"
        by (simp add: sync_folder_def search_call_def)
      ultimately show ?thesis using that(3) Inr x True by blast
    next
      case False
      with None Inr x have "skipped M since f" by (simp add: skipped_def)
      moreover from None Inr x False
      have "sync_folder L M C a since f s = Inr (search_call since f s)"
        by (simp add: sync_folder_def search_call_def)
      ultimately show ?thesis using that(1)[of "search_call since f s"] by simp
    qed
  qed
qed



lemma quiet_ext_search_call: "quiet_ext s (search_call since f s)"
  by (simp add: quiet_ext_def)

lemma sync_folder_lift:
  assumes "P s"
    and quiet: "\<And>s s'. P s \<Longrightarrow> quiet_ext s s' \<Longrightarrow> P s'"
    and msg: "\<And>f n s. P s \<Longrightarrow> P (state_of (sync_message L M C a f n s))"
  shows "P (state_of (sync_folder L M C a since f s))"
proof (cases rule: sync_folder_cases[of M since f L C a s])
  case (skip s')
  then have "quiet_ext s s'" by (simp add: quiet_ext_def)
  with assms(1) quiet skip(2) show ?thesis by auto
next
  case (raise e)
  with quiet[OF assms(1) quiet_ext_search_call] show ?thesis by simp
next
  case (run dat)
  from quiet[OF assms(1) quiet_ext_search_call] have "P (search_call since f s)" .
  then have "P (state_of (sync_messages L M C a f (last_1000 (id_list_of dat)) (search_call since f s)))"
    by (rule sync_messages_lift) (rule msg)
  with run show ?thesis by simp
qed

lemma sync_folders_lift:
  assumes "P s"
    and quiet: "\<And>s s'. P s \<Longrightarrow> quiet_ext s s' \<Longrightarrow> P s'"
    and msg: "\<And>f n s. P s \<Longrightarrow> P (state_of (sync_message L M C a f n s))"
  shows "P (state_of (sync_folders L M C a since fs s))"
  using assms(1)
proof (induction fs arbitrary: s)
  case Nil
  then show ?case by simp
next
  case (Cons f fs)
  have P1: "P (state_of (sync_folder L M C a since f s))"
    using Cons.prems quiet msg by (rule sync_folder_lift)
  show ?case
  proof (cases "sync_folder L M C a since f s")
    case (Inl x)
    with P1 show ?thesis by simp
  next
    case (Inr s1)
    with P1 have "P s1" by simp
    from Cons.IH[OF this] Inr show ?thesis by simp
  qed
qed

lemma sync_folders_prefix: "prefix (db s) (db (state_of (sync_folders L M C a since fs s)))"
proof (rule sync_folders_lift[where P = "\<lambda>t. prefix (db s) (db t)"])
  show "prefix (db s) (db s)" by simp
next
  fix t t' :: sync_state
  assume "prefix (db s) (db t)" "quiet_ext t t'"
  then show "prefix (db s) (db t')" by (simp add: quiet_ext_def data_of_def)
next
  fix f n and t :: sync_state
  assume "prefix (db s) (db t)"
  with sync_message_prefix[of t L M C a f n]
  show "prefix (db s) (db (state_of (sync_message L M C a f n t)))"
    by (rule prefix_order.trans[rotated])
qed

lemma sync_folders_no_logout:
  assumes "Logout \<notin> set (calls s)"
  shows "Logout \<notin> set (calls (state_of (sync_folders L M C a since fs s)))"
proof (rule sync_folders_lift[where P = "\<lambda>t. Logout \<notin> set (calls t)"])
  show "Logout \<notin> set (calls s)" by (rule assms)
next
  fix t t' :: sync_state
  assume "Logout \<notin> set (calls t)" "quiet_ext t t'"
  then show "Logout \<notin> set (calls t')" by (auto simp: quiet_ext_def)
next
  fix f n and t :: sync_state
  assume "Logout \<notin> set (calls t)"
  then show "Logout \<notin> set (calls (state_of (sync_message L M C a f n t)))"
    by (simp add: sync_message_calls)
qed

lemma sync_folders_inv:
  assumes "I (db s)"
    and "\<And>coll i doc. I coll \<Longrightarrow> account_id doc = acc_id a \<Longrightarrow> uid doc = None \<Longrightarrow>
            find_by_key coll (message_id doc) (acc_id a) = None \<Longrightarrow> I (coll @ [(i, doc)])"
  shows "I (db (state_of (sync_folders L M C a since fs s)))"
proof (rule sync_folders_lift[where P = "\<lambda>t. I (db t)"])
  show "I (db s)" by (rule assms)
next
  fix t t' :: sync_state
  assume "I (db t)" "quiet_ext t t'"
  then show "I (db t')" by (simp add: quiet_ext_def data_of_def)
next
  fix f n and t :: sync_state
  assume "I (db t)"
  then show "I (db (state_of (sync_message L M C a f n t)))"
    using assms(2) by (rule sync_message_inv)
qed

lemma res_data_eq_iff:
  "res_data r = res_data r' \<longleftrightarrow> raised r = raised r' \<and> data_of (state_of r) = data_of (state_of r')"
  by (simp add: res_data_def)

lemma sync_folder_data:
  assumes "data_of s = data_of t"
  shows "res_data (sync_folder L M C a since f s) = res_data (sync_folder L M C a since f t)"
proof (cases rule: sync_folder_cases[of M since f L C a s])
  case (skip s')
  note s = skip
  show ?thesis
  proof (cases rule: sync_folder_cases[of M since f L C a t])
    case (skip t')
    with s assms show ?thesis by (simp add: res_data_def)
  next
    case (raise e)
    with s show ?thesis by simp
  next
    case (run dat)
    with s show ?thesis by simp
  qed
next
  case (raise e)
  note s = raise
  show ?thesis
  proof (cases rule: sync_folder_cases[of M since f L C a t])
    case (skip t')
    with s show ?thesis by simp
  next
    case (raise e')
    with s assms show ?thesis by (simp add: res_data_def)
  next
    case (run dat)
    with s show ?thesis by simp
  qed
next
  case (run dat)
  note s = run
  show ?thesis
  proof (cases rule: sync_folder_cases[of M since f L C a t])
    case (skip t')
    with s show ?thesis by simp
  next
    case (raise e')
    with s show ?thesis by simp
  next
    case (run dat')
    with s have d: "dat' = dat" by simp
    from assms have "data_of (search_call since f s) = data_of (search_call since f t)" by simp
    from sync_messages_data[OF this, of L M C a f "last_1000 (id_list_of dat)"] s(3) run(3) d
    show ?thesis by simp
  qed
qed

lemma sync_folders_data:
  assumes "data_of s = data_of t"
  shows "res_data (sync_folders L M C a since fs s) = res_data (sync_folders L M C a since fs t)"
  using assms
proof (induction fs arbitrary: s t)
  case Nil
  then show ?case by (simp add: res_data_def)
next
  case (Cons f fs)
  from sync_folder_data[OF Cons.prems, of L M C a since f]
  have eq: "res_data (sync_folder L M C a since f s) = res_data (sync_folder L M C a since f t)" .
  show ?case
  proof (cases "sync_folder L M C a since f s")
    case (Inl x)
    obtain e s1 where x: "x = (e, s1)" by (cases x)
    with Inl eq obtain t1 where "sync_folder L M C a since f t = Inl (e, t1)" "data_of s1 = data_of t1"
      by (cases "sync_folder L M C a since f t") (auto simp: res_data_def)
    with Inl x show ?thesis by (simp add: res_data_def)
  next
    case (Inr s1)
    with eq obtain t1 where t1: "sync_folder L M C a since f t = Inr t1" "data_of s1 = data_of t1"
      by (cases "sync_folder L M C a since f t") (auto simp: res_data_def)
    from Cons.IH[OF t1(2)] Inr t1(1) show ?thesis by simp
  qed
qed

lemma sync_folder_replay:
  assumes "prefix (db (state_of (sync_folder L M C a since f s))) (db t)"
  shows "raised (sync_folder L M C' a since f t) = raised (sync_folder L M C a since f s)
       \<and> data_of (state_of (sync_folder L M C' a since f t)) = data_of t"
proof (cases rule: sync_folder_cases[of M since f L C a s])
  case (skip s')
  note s = skip
  show ?thesis
  proof (cases rule: sync_folder_cases[of M since f L C' a t])
    case (skip t')
    with s show ?thesis by simp
  next
    case (raise e)
    with s show ?thesis by simp
  next
    case (run dat)
    with s show ?thesis by simp
  qed
next
  case (raise e)
  note s = raise
  show ?thesis
  proof (cases rule: sync_folder_cases[of M since f L C' a t])
    case (skip t')
    with s show ?thesis by simp
  next
    case (raise e')
    with s show ?thesis by simp
  next
    case (run dat)
    with s show ?thesis by simp
  qed
next
  case (run dat)
  note s = run
  show ?thesis
  proof (cases rule: sync_folder_cases[of M since f L C' a t])
    case (skip t')
    with s show ?thesis by simp
  next
    case (raise e')
    with s show ?thesis by simp
  next
    case (run dat')
    with s have d: "dat' = dat" by simp
    from assms s(3)
    have "prefix (db (state_of (sync_messages L M C a f (last_1000 (id_list_of dat)) (search_call since f s))))
            (db (search_call since f t))" by simp
    from sync_messages_replay[OF this, of C'] run(3) s(3) d show ?thesis by simp
  qed
qed

lemma sync_folders_replay:
  assumes "prefix (db (state_of (sync_folders L M C a since fs s))) (db t)"
  shows "raised (sync_folders L M C' a since fs t) = raised (sync_folders L M C a since fs s)
       \<and> data_of (state_of (sync_folders L M C' a since fs t)) = data_of t"
  using assms
proof (induction fs arbitrary: s t)
  case Nil
  then show ?case by simp
next
  case (Cons f fs)
  show ?case
  proof (cases "sync_folder L M C a since f s")
    case (Inl x)
    obtain e s1 where x: "x = (e, s1)" by (cases x)
    with Inl Cons.prems have "prefix (db (state_of (sync_folder L M C a since f s))) (db t)" by simp
    from sync_folder_replay[OF this, of C'] Inl x
    have "raised (sync_folder L M C' a since f t) = Some e"
      "data_of (state_of (sync_folder L M C' a since f t)) = data_of t" by simp_all
    then obtain t1 where "sync_folder L M C' a since f t = Inl (e, t1)" "data_of t1 = data_of t"
      by (cases "sync_folder L M C' a since f t") auto
    with Inl x show ?thesis by simp
  next
    case (Inr s1)
    then have run: "sync_folders L M C a since (f # fs) s = sync_folders L M C a since fs s1" by simp
    have "prefix (db s1) (db (state_of (sync_folders L M C a since fs s1)))"
      by (rule sync_folders_prefix)
    with Cons.prems run have "prefix (db s1) (db t)" by (metis prefix_order.trans)
    with Inr have "prefix (db (state_of (sync_folder L M C a since f s))) (db t)" by simp
    from sync_folder_replay[OF this, of C'] Inr
    have "raised (sync_folder L M C' a since f t) = None"
      "data_of (state_of (sync_folder L M C' a since f t)) = data_of t" by simp_all
    then obtain t1 where t1: "sync_folder L M C' a since f t = Inr t1" "data_of t1 = data_of t"
      by (cases "sync_folder L M C' a since f t") auto
    then have "db t1 = db t" by (simp add: data_of_def)
    with Cons.prems run have "prefix (db (state_of (sync_folders L M C a since fs s1))) (db t1)" by simp
    from Cons.IH[OF this] t1 run show ?thesis by simp
  qed
qed

lemma sync_folders_append:
  "sync_folders L M C a since (xs @ ys) s =
     (case sync_folders L M C a since xs s of
        Inl x \<Rightarrow> Inl x
      | Inr s' \<Rightarrow> sync_folders L M C a since ys s')"
  by (induction xs arbitrary: s) (auto split: sum.splits)

lemma sync_folders_skip:
  assumes "skipped M since f"
  shows "res_data (sync_folders L M C a since (xs @ f # ys) s)
       = res_data (sync_folders L M C a since (xs @ ys) s)"
proof (cases "sync_folders L M C a since xs s")
  case (Inl x)
  then show ?thesis by (simp add: sync_folders_append)
next
  case (Inr s1)
  from assms obtain s2 where s2: "sync_folder L M C a since f s1 = Inr s2" "data_of s2 = data_of s1"
    by (cases rule: sync_folder_cases[of M since f L C a s1]) auto
  from sync_folders_data[OF s2(2), of L M C a since ys]
  have "res_data (sync_folders L M C a since ys s2) = res_data (sync_folders L M C a since ys s1)" .
  with Inr s2(1) show ?thesis by (simp add: sync_folders_append)
qed


lemma start_state_simps [simp]:
  "db (start_state coll) = coll" "inserted (start_state coll) = 0"
  "reads (start_state coll) = 0" "calls (start_state coll) = []"
  by (simp_all add: start_state_def)

lemma sync_account_refused:
  "connect_imap M (host a) (port a) (username a) (password a) (use_ssl a) = Inl e \<Longrightarrow>
     sync_account L M C a folders days coll =
       (Inl (HTTPException 400 (''IMAP login failed: '' @ e)), coll, [])"
  by (simp add: sync_account_def)

lemma try_logout_eq: "try_logout M s = s\<lparr>calls := calls s @ [Logout]\<rparr>"
  by (simp add: try_logout_def logout_def split: option.splits)

lemma sync_account_overflow:
  assumes "connected M a" and "since_date L (now C) days = Inl e"
  shows "sync_account L M C a folders days coll = (Inl (HTTPException 500 e), coll, [Logout])"
proof -
  from assms(1) have c: "connect_imap M (host a) (port a) (username a) (password a) (use_ssl a) = Inr ()"
    by (simp add: connected_def)
  show ?thesis
    unfolding sync_account_def c assms(2) Let_def try_logout_eq by simp
qed

lemma sync_account_run:
  assumes "connected M a" and "since_date L (now C) days = Inr since"
  shows "sync_account L M C a folders days coll =
     ((case raised (sync_folders L M C a since (target_folders folders) (start_state coll)) of
         None \<Rightarrow> Inr (inserted (state_of (sync_folders L M C a since (target_folders folders) (start_state coll))))
       | Some e \<Rightarrow> Inl (HTTPException 500 e)),
      db (state_of (sync_folders L M C a since (target_folders folders) (start_state coll))),
      calls (state_of (sync_folders L M C a since (target_folders folders) (start_state coll))) @ [Logout])"
proof -
  from assms(1) have c: "connect_imap M (host a) (port a) (username a) (password a) (use_ssl a) = Inr ()"
    by (simp add: connected_def)
  let ?r = "sync_folders L M C a since (target_folders folders) (start_state coll)"
  have unf: "sync_account L M C a folders days coll =
      (case ?r of
         Inr s \<Rightarrow> (Inr (inserted s), db (try_logout M s), calls (try_logout M s))
       | Inl (e, s) \<Rightarrow> (Inl (HTTPException 500 e), db (try_logout M s), calls (try_logout M s)))"
    unfolding sync_account_def c assms(2) Let_def start_state_def by simp
  show ?thesis
  proof (cases ?r)
    case (Inl x)
    obtain e s where "x = (e, s)" by (cases x)
    with Inl unf show ?thesis by (simp add: try_logout_eq)
  next
    case (Inr s)
    with unf show ?thesis by (simp add: try_logout_eq)
  qed
qed

lemma sync_account_cases [case_names refused overflow run]:
  obtains e where "\<not> connected M a"
      "sync_account L M C a folders days coll =
         (Inl (HTTPException 400 (''IMAP login failed: '' @ e)), coll, [])"
  | e where "connected M a" "since_date L (now C) days = Inl e"
      "sync_account L M C a folders days coll = (Inl (HTTPException 500 e), coll, [Logout])"
  | since where "connected M a" "since_date L (now C) days = Inr since"
      "sync_account L M C a folders days coll =
        ((case raised (sync_folders L M C a since (target_folders folders) (start_state coll)) of
            None \<Rightarrow> Inr (inserted (state_of (sync_folders L M C a since (target_folders folders) (start_state coll))))
          | Some e \<Rightarrow> Inl (HTTPException 500 e)),
         db (state_of (sync_folders L M C a since (target_folders folders) (start_state coll))),
         calls (state_of (sync_folders L M C a since (target_folders folders) (start_state coll))) @ [Logout])"
proof (cases "connect_imap M (host a) (port a) (username a) (password a) (use_ssl a)")
  case (Inl e)
  then have "\<not> connected M a" by (simp add: connected_def)
  with sync_account_refused[OF Inl] that(1) show ?thesis by blast
next
  case (Inr u)
  then have c: "connected M a" by (simp add: connected_def)
  show ?thesis
  proof (cases "since_date L (now C) days")
    case (Inl e)
    with c sync_account_overflow[OF c Inl] that(2) show ?thesis by blast
  next
    case (Inr since)
    with c sync_account_run[OF c Inr] that(3) show ?thesis by blast
  qed
qed

section \<open>Session close\<close>

lemma sync_message_logout:
  "sync_message L (M\<lparr>logout_r := x\<rparr>) C a f n s = sync_message L M C a f n s"
  by (simp add: sync_message_def)

lemma sync_messages_logout:
  "sync_messages L (M\<lparr>logout_r := x\<rparr>) C a f ns s = sync_messages L M C a f ns s"
  by (induction ns arbitrary: s) (simp_all add: sync_message_logout split: sum.splits)

lemma sync_folder_logout:
  "sync_folder L (M\<lparr>logout_r := x\<rparr>) C a since f s = sync_folder L M C a since f s"
  by (simp add: sync_folder_def sync_messages_logout Let_def split: option.splits sum.splits prod.splits)

lemma sync_folders_logout:
  "sync_folders L (M\<lparr>logout_r := x\<rparr>) C a since fs s = sync_folders L M C a since fs s"
  by (induction fs arbitrary: s) (simp_all add: sync_folder_logout split: sum.splits)

lemma connected_logout: "connected (M\<lparr>logout_r := x\<rparr>) a = connected M a"
  by (simp add: connected_def connect_imap_def split: option.splits)

lemma sync_account_logout:
  "sync_account L (M\<lparr>logout_r := x\<rparr>) C a folders days coll = sync_account L M C a folders days coll"
proof (cases rule: sync_account_cases[of M a L C folders days coll])
  case (refused e)
  then have "connect_imap (M\<lparr>logout_r := x\<rparr>) (host a) (port a) (username a) (password a) (use_ssl a)
      = connect_imap M (host a) (port a) (username a) (password a) (use_ssl a)"
    by (simp add: connect_imap_def split: option.splits)
  moreover from refused(1) obtain e' where
    "connect_imap M (host a) (port a) (username a) (password a) (use_ssl a) = Inl e'"
    by (cases "connect_imap M (host a) (port a) (username a) (password a) (use_ssl a)")
      (auto simp: connected_def)
  ultimately show ?thesis by (simp add: sync_account_def)
next
  case (overflow e)
  from overflow(1) have "connected (M\<lparr>logout_r := x\<rparr>) a" by (simp add: connected_logout)
  from sync_account_overflow[OF this overflow(2)] overflow(3) show ?thesis by simp
next
  case (run since)
  from run(1) have "connected (M\<lparr>logout_r := x\<rparr>) a" by (simp add: connected_logout)
  from sync_account_run[OF this run(2), of folders coll] run(3) show ?thesis
    by (simp add: sync_folders_logout cong: option.case_cong)
qed

text \<open>
  C8. Once the session is opened, whatever way the run ends, the last call made on the
  session is the logout, made once, and the result is then returned; what the logout
  answers, an exception or not, changes nothing in what the run returns and stores.
\<close>

theorem logout_on_every_exit:
  assumes "connected M a"
  shows "(\<exists>pre. snd (snd (sync_account L M C a folders days coll)) = pre @ [Logout]
                \<and> Logout \<notin> set pre)
         \<and> sync_account L (M\<lparr>logout_r := x\<rparr>) C a folders days coll
             = sync_account L M C a folders days coll"
proof (cases rule: sync_account_cases[of M a L C folders days coll])
  case (refused e)
  with assms show ?thesis by simp
next
  case (overflow e)
  then show ?thesis by (simp add: sync_account_logout)
next
  case (run since)
  have "Logout \<notin> set (calls (state_of
      (sync_folders L M C a since (target_folders folders) (start_state coll))))"
    by (rule sync_folders_no_logout) simp
  with run(3) show ?thesis by (simp add: sync_account_logout)
qed

theorem logout_on_every_exit_witness:
  "connected ex_mailbox ex_account
   \<and> logout_r ex_mailbox = Some ''already closed''
   \<and> sync_account ex_lib ex_mailbox ex_clock ex_account (Some [''Missing'', ''INBOX'']) 7 []
       = (Inl (HTTPException 500 ''command SEARCH illegal in state AUTH''), [],
          [Select ''Missing'', Search ''(SINCE 01-Jan-2024)'', Logout])
   \<and> sync_account ex_lib (ex_mailbox\<lparr>logout_r := None\<rparr>) ex_clock ex_account
        (Some [''Missing'', ''INBOX'']) 7 []
       = sync_account ex_lib ex_mailbox ex_clock ex_account (Some [''Missing'', ''INBOX'']) 7 []
   \<and> snd (snd (sync_account ex_lib ex_mailbox ex_clock ex_account (Some [''INBOX'']) 7 []))
       = [Select ''INBOX'', Search ''(SINCE 01-Jan-2024)'', Fetch ''1'' ''(RFC822 UID)'', Logout]"
proof -
  have c: "connected ex_mailbox ex_account" by code_simp
  have l: "logout_r ex_mailbox = Some ''already closed''" by code_simp
  have r: "sync_account ex_lib ex_mailbox ex_clock ex_account (Some [''Missing'', ''INBOX'']) 7 []
       = (Inl (HTTPException 500 ''command SEARCH illegal in state AUTH''), [],
          [Select ''Missing'', Search ''(SINCE 01-Jan-2024)'', Logout])"
    by code_simp
  have n: "snd (snd (sync_account ex_lib ex_mailbox ex_clock ex_account (Some [''INBOX'']) 7 []))
       = [Select ''INBOX'', Search ''(SINCE 01-Jan-2024)'', Fetch ''1'' ''(RFC822 UID)'', Logout]"
    by code_simp
  from logout_on_every_exit[OF c, of ex_lib ex_clock "Some [''Missing'', ''INBOX'']" 7 "[]" None]
    c l r n show ?thesis by simp
qed

section \<open>Invariants of the store\<close>

lemma sync_account_inv:
  assumes "I coll"
    and "\<And>coll i doc. I coll \<Longrightarrow> account_id doc = acc_id a \<Longrightarrow> uid doc = None \<Longrightarrow>
            find_by_key coll (message_id doc) (acc_id a) = None \<Longrightarrow> I (coll @ [(i, doc)])"
  shows "I (fst (snd (sync_account L M C a folders days coll)))"
proof (cases rule: sync_account_cases[of M a L C folders days coll])
  case (refused e)
  with assms(1) show ?thesis by simp
next
  case (overflow e)
  with assms(1) show ?thesis by simp
next
  case (run since)
  have "I (db (state_of (sync_folders L M C a since (target_folders folders) (start_state coll))))"
  proof (rule sync_folders_inv)
    show "I (db (start_state coll))" using assms(1) by simp
  qed (rule assms(2))
  with run(3) show ?thesis by simp
qed

lemma update_category_uid:
  "\<forall>p \<in> set coll. uid (snd p) = None \<Longrightarrow> \<forall>p \<in> set (update_category coll j c). uid (snd p) = None"
  by (induction coll j c rule: update_category.induct) auto

lemma mark_interested_uid:
  assumes "\<forall>p \<in> set coll. uid (snd p) = None"
  shows "\<forall>p \<in> set (snd (mark_interested L coll email_id)). uid (snd p) = None"
proof (cases "object_id L email_id")
  case None
  with assms show ?thesis by (simp add: mark_interested_def)
next
  case (Some i)
  show ?thesis
  proof (cases "find_by_id coll i")
    case None
    with Some assms show ?thesis by (simp add: mark_interested_def)
  next
    case (Some p)
    obtain j doc where "p = (j, doc)" by (cases p)
    with Some \<open>object_id L email_id = Some i\<close> update_category_uid[OF assms, of j "''Interested''"]
    show ?thesis by (simp add: mark_interested_def)
  qed
qed

lemma apply_op_uid:
  assumes "\<forall>p \<in> set coll. uid (snd p) = None"
  shows "\<forall>p \<in> set (apply_op L coll op). uid (snd p) = None"
proof (cases op)
  case (Sync M C a folders days)
  have "\<forall>p \<in> set (fst (snd (sync_account L M C a folders days coll))). uid (snd p) = None"
  proof (rule sync_account_inv[where I = "\<lambda>c. \<forall>p \<in> set c. uid (snd p) = None"])
    show "\<forall>p \<in> set coll. uid (snd p) = None" by (rule assms)
  next
    fix c :: emails and i and doc :: email_message
    assume "\<forall>p \<in> set c. uid (snd p) = None" "uid doc = None"
    then show "\<forall>p \<in> set (c @ [(i, doc)]). uid (snd p) = None" by simp
  qed
  with Sync show ?thesis by simp
next
  case (Mark email_id)
  with mark_interested_uid[OF assms] show ?thesis by simp
qed

lemma apply_ops_uid:
  assumes "\<forall>p \<in> set coll. uid (snd p) = None"
  shows "\<forall>p \<in> set (apply_ops L coll ops). uid (snd p) = None"
  using assms
proof (induction ops arbitrary: coll)
  case Nil
  then show ?case by (simp add: apply_ops_def)
next
  case (Cons op ops)
  from Cons.IH[OF apply_op_uid[OF Cons.prems]] show ?case by (simp add: apply_ops_def)
qed

text \<open>
  C10. Whatever the history of sync runs and classification overrides on a store that
  starts empty, every record in it has \<open>uid = None\<close>; and every fetch of a run asks the
  server for \<open>(RFC822 UID)\<close>, the answer to which is not read for the field.
\<close>

theorem uid_never_set:
  assumes "(i, d) \<in> set (apply_ops L [] ops)"
  shows "uid d = None
         \<and> calls (state_of (sync_message L M C a f n s)) = calls s @ [Fetch n ''(RFC822 UID)'']"
proof -
  have "\<forall>p \<in> set (apply_ops L [] ops). uid (snd p) = None"
    by (rule apply_ops_uid) simp
  with assms have "uid d = None" by force
  then show ?thesis by (simp add: sync_message_calls)
qed

theorem uid_never_set_witness:
  "length (apply_ops ex_lib []
      [Sync ex_mailbox ex_clock ex_account (Some [''INBOX'', ''Archive'']) 7,
       Mark ''AAAAAAAAAAAAAAAAAAAAAAAA'']) = 1
   \<and> uid (snd (hd (apply_ops ex_lib []
      [Sync ex_mailbox ex_clock ex_account (Some [''INBOX'', ''Archive'']) 7,
       Mark ''AAAAAAAAAAAAAAAAAAAAAAAA'']))) = None
   \<and> ai_category (snd (hd (apply_ops ex_lib []
      [Sync ex_mailbox ex_clock ex_account (Some [''INBOX'', ''Archive'']) 7,
       Mark ''AAAAAAAAAAAAAAAAAAAAAAAA'']))) = Some ''Interested''"
proof -
  let ?db = "apply_ops ex_lib []
      [Sync ex_mailbox ex_clock ex_account (Some [''INBOX'', ''Archive'']) 7,
       Mark ''AAAAAAAAAAAAAAAAAAAAAAAA'']"
  have len: "length ?db = 1" by code_simp
  have cat: "ai_category (snd (hd ?db)) = Some ''Interested''" by code_simp
  from len have "?db \<noteq> []" by auto
  then have "(fst (hd ?db), snd (hd ?db)) \<in> set ?db" by simp
  from uid_never_set[OF this] len cat show ?thesis by simp
qed

section \<open>Date of a record\<close>

text \<open>
  C6. A fetched message whose \<open>Date\<close> header is missing, empty or refused by the parser
  does not make the step raise; when its key is not stored yet, the step stores one
  record for it, and the date of the record is the reading of the UTC clock taken at
  that moment.
\<close>

theorem date_falls_back_to_ingestion_time:
  assumes "fetched L M f n = Some msg"
    and "case get_header L msg ''Date'' of
           None \<Rightarrow> True
         | Some h \<Rightarrow> h = [] \<or> parsedate_to_datetime L h = None"
  shows "raised (sync_message L M C a f n s) = None
         \<and> (find_by_key (db s) (message_key L msg n f (username a)) (acc_id a) = None \<longrightarrow>
              (\<exists>doc. db (state_of (sync_message L M C a f n s))
                        = db s @ [(new_object_id L (length (db s)), doc)]
                    \<and> inserted (state_of (sync_message L M C a f n s)) = Suc (inserted s)
                    \<and> message_id doc = message_key L msg n f (username a)
                    \<and> date doc = utcnow C (reads s)))"
proof -
  from assms(2) have pd: "parse_date L msg = None"
    by (auto simp: parse_date_def Let_def split: option.splits)
  from assms(1) obtain x where x: "fetch_r M f n = Inr x"
    by (cases "fetch_r M f n") (simp_all add: fetched_def)
  then have r: "raised (sync_message L M C a f n s) = None"
    by (simp add: sync_message_raised)
  show ?thesis
  proof (cases "find_by_key (db s) (message_key L msg n f (username a)) (acc_id a) = None")
    case False
    with r show ?thesis by blast
  next
    case True
    from sync_message_insert[OF assms(1) True, of C] pd r True show ?thesis by auto
  qed
qed

theorem date_falls_back_to_ingestion_time_witness:
  "fetched ex_lib ex_mailbox ''INBOX'' ''1''
     = Some (message_from_bytes ex_lib (''<m1@x>'' @ [CHR 0x0A] @ ''hi''))
   \<and> get_header ex_lib (message_from_bytes ex_lib (''<m1@x>'' @ [CHR 0x0A] @ ''hi'')) ''Date'' = None
   \<and> raised (sync_message ex_lib ex_mailbox ex_clock ex_account ''INBOX'' ''1'' (start_state [])) = None
   \<and> map (\<lambda>p. (message_id (snd p), date (snd p)))
        (db (state_of (sync_message ex_lib ex_mailbox ex_clock ex_account ''INBOX'' ''1''
           (start_state [])))) = [(''<m1@x>'', utcnow ex_clock 0)]"
proof -
  let ?msg = "message_from_bytes ex_lib (''<m1@x>'' @ [CHR 0x0A] @ ''hi'')"
  have 1: "fetched ex_lib ex_mailbox ''INBOX'' ''1'' = Some ?msg" by code_simp
  have 2: "get_header ex_lib ?msg ''Date'' = None" by code_simp
  have 3: "case get_header ex_lib ?msg ''Date'' of
             None \<Rightarrow> True
           | Some h \<Rightarrow> h = [] \<or> parsedate_to_datetime ex_lib h = None"
    by (simp only: 2 option.case)
  have 4: "find_by_key (db (start_state [])) (message_key ex_lib ?msg ''1'' ''INBOX'' (username ex_account))
             (acc_id ex_account) = None"
    by (simp add: find_by_key_def)
  have 5: "message_key ex_lib ?msg ''1'' ''INBOX'' (username ex_account) = ''<m1@x>''"
    by code_simp
  from date_falls_back_to_ingestion_time[OF 1 3, of ex_clock ex_account "start_state []"] 4 5
  obtain doc where
    "raised (sync_message ex_lib ex_mailbox ex_clock ex_account ''INBOX'' ''1'' (start_state [])) = None"
    "db (state_of (sync_message ex_lib ex_mailbox ex_clock ex_account ''INBOX'' ''1'' (start_state [])))
       = [(new_object_id ex_lib 0, doc)]"
    "message_id doc = ''<m1@x>''" "date doc = utcnow ex_clock 0"
    by auto
  with 1 2 show ?thesis by simp
qed

section \<open>Running a sync twice\<close>

text \<open>
  C1. A run followed by a second run with the same account, folders and day window, on
  the same mailbox and with the same cutoff date, whatever the clock otherwise: the
  second run stores nothing, and it returns the count 0 when the first returned a count
  (and the error of the first when the first failed).
\<close>

theorem second_sync_inserts_nothing:
  assumes "sync_account L M C a folders days coll = (r, coll1, cs)"
    and "since_date L (now C') days = since_date L (now C) days"
  shows "fst (snd (sync_account L M C' a folders days coll1)) = coll1
         \<and> fst (sync_account L M C' a folders days coll1)
             = (case r of Inl e \<Rightarrow> Inl e | Inr n \<Rightarrow> Inr 0)"
proof (cases rule: sync_account_cases[of M a L C folders days coll])
  case (refused e)
  with assms(1) have r: "r = Inl (HTTPException 400 (''IMAP login failed: '' @ e))" "coll1 = coll"
    by simp_all
  from refused(1) obtain e' where c: "connect_imap M (host a) (port a) (username a) (password a) (use_ssl a) = Inl e'"
    by (cases "connect_imap M (host a) (port a) (username a) (password a) (use_ssl a)")
      (auto simp: connected_def)
  from sync_account_refused[OF c, of L C folders days coll] sync_account_refused[OF c, of L C' folders days coll1]
    assms(1) r
  show ?thesis by simp
next
  case (overflow e)
  with assms(1) have r: "r = Inl (HTTPException 500 e)" "coll1 = coll" by simp_all
  from overflow(2) assms(2) have "since_date L (now C') days = Inl e" by simp
  from sync_account_overflow[OF overflow(1) this, of folders coll1] r show ?thesis by simp
next
  case (run since)
  let ?r1 = "sync_folders L M C a since (target_folders folders) (start_state coll)"
  let ?r2 = "sync_folders L M C' a since (target_folders folders) (start_state coll1)"
  from run(3) assms(1) have r: "r = (case raised ?r1 of None \<Rightarrow> Inr (inserted (state_of ?r1))
        | Some e \<Rightarrow> Inl (HTTPException 500 e))" and c1: "coll1 = db (state_of ?r1)"
    by simp_all
  from run(2) assms(2) have s: "since_date L (now C') days = Inr since" by simp
  have "prefix (db (state_of ?r1)) (db (start_state coll1))" by (simp add: c1)
  from sync_folders_replay[OF this, of C']
  have rep: "raised ?r2 = raised ?r1" "data_of (state_of ?r2) = data_of (start_state coll1)"
    by simp_all
  from rep(2) have d: "db (state_of ?r2) = coll1" "inserted (state_of ?r2) = 0"
    by (simp_all add: data_of_def)
  from sync_account_run[OF run(1) s, of folders coll1] rep(1) d r
  show ?thesis by (simp split: option.splits)
qed

theorem second_sync_inserts_nothing_witness:
  "fst (sync_account ex_lib ex_mailbox ex_clock ex_account (Some [''INBOX'', ''Archive'']) 7 [])
     = Inr 1
   \<and> fst (sync_account ex_lib ex_mailbox (ex_clock\<lparr>now := 5000\<rparr>) ex_account
        (Some [''INBOX'', ''Archive'']) 7
        (fst (snd (sync_account ex_lib ex_mailbox ex_clock ex_account
           (Some [''INBOX'', ''Archive'']) 7 [])))) = Inr 0
   \<and> fst (snd (sync_account ex_lib ex_mailbox (ex_clock\<lparr>now := 5000\<rparr>) ex_account
        (Some [''INBOX'', ''Archive'']) 7
        (fst (snd (sync_account ex_lib ex_mailbox ex_clock ex_account
           (Some [''INBOX'', ''Archive'']) 7 [])))))
     = fst (snd (sync_account ex_lib ex_mailbox ex_clock ex_account
           (Some [''INBOX'', ''Archive'']) 7 []))"
proof -
  let ?run = "sync_account ex_lib ex_mailbox ex_clock ex_account (Some [''INBOX'', ''Archive'']) 7 []"
  have 1: "?run = (fst ?run, fst (snd ?run), snd (snd ?run))" by simp
  have 2: "since_date ex_lib (now (ex_clock\<lparr>now := 5000\<rparr>)) 7 = since_date ex_lib (now ex_clock) 7"
    by code_simp
  have 3: "fst ?run = Inr 1" by code_simp
  from second_sync_inserts_nothing[OF 1 2] 3 show ?thesis by simp
qed

section \<open>A search that raises\<close>

text \<open>
  C7 does not hold of the code. The selection of a folder is inside a handler, the
  search that follows is not: when the search raises, the exception leaves both loops,
  the run ends with the error 500, and the folders after it are not visited. Here the
  server answers \<open>NO\<close> to the selection of \<open>Missing\<close>, which the library returns without
  an exception, and the library refuses the search in a session that is in no folder.
  \<open>INBOX\<close> has a message, which the run over \<open>INBOX\<close> alone stores, as do the runs where
  the selection raises (\<open>Gone\<close>) or the search is answered \<open>NO\<close> (\<open>Locked\<close>).
\<close>

theorem search_exception_aborts_run:
  "select_r ex_mailbox ''Missing'' = None
   \<and> search_r ex_mailbox ''Missing'' ''(SINCE 01-Jan-2024)''
       = Inl ''command SEARCH illegal in state AUTH''
   \<and> sync_account ex_lib ex_mailbox ex_clock ex_account (Some [''Missing'', ''INBOX'']) 7 []
       = (Inl (HTTPException 500 ''command SEARCH illegal in state AUTH''), [],
          [Select ''Missing'', Search ''(SINCE 01-Jan-2024)'', Logout])
   \<and> fst (sync_account ex_lib ex_mailbox ex_clock ex_account (Some [''INBOX'']) 7 []) = Inr 1
   \<and> fst (sync_account ex_lib ex_mailbox ex_clock ex_account (Some [''Gone'', ''INBOX'']) 7 [])
       = Inr 1
   \<and> fst (sync_account ex_lib ex_mailbox ex_clock ex_account (Some [''Locked'', ''INBOX'']) 7 [])
       = Inr 1"
  by code_simp

section \<open>Reply suggestion\<close>






section \<open>One record for a key\<close>

lemma key_count_append:
  "key_count (xs @ ys) aid mid = key_count xs aid mid + key_count ys aid mid"
  by (simp add: key_count_def)

lemma key_count_single:
  "key_count [(i, d)] aid mid = (if account_id d = aid \<and> message_id d = mid then 1 else 0)"
  by (simp add: key_count_def)

lemma find_by_key_count: "(find_by_key coll mid aid = None) = (key_count coll aid mid = 0)"
  by (induction coll) (auto simp: find_by_key_def key_count_def)

lemma key_count_update_category:
  "key_count (update_category coll j c) aid mid = key_count coll aid mid"
  by (induction coll j c rule: update_category.induct) (simp_all add: key_count_def)

lemma mark_interested_key_count:
  "key_count (snd (mark_interested L coll email_id)) aid mid = key_count coll aid mid"
proof (cases "object_id L email_id")
  case None
  then show ?thesis by (simp add: mark_interested_def)
next
  case (Some i)
  show ?thesis
  proof (cases "find_by_id coll i")
    case None
    with Some show ?thesis by (simp add: mark_interested_def)
  next
    case (Some p)
    obtain j doc where "p = (j, doc)" by (cases p)
    with Some \<open>object_id L email_id = Some i\<close> show ?thesis
      by (simp add: mark_interested_def key_count_update_category)
  qed
qed

lemma sync_account_unique:
  assumes "\<forall>aid mid. key_count coll aid mid \<le> 1"
  shows "\<forall>aid mid. key_count (fst (snd (sync_account L M C a folders days coll))) aid mid \<le> 1"
proof (rule sync_account_inv[where I = "\<lambda>c. \<forall>aid mid. key_count c aid mid \<le> 1"])
  show "\<forall>aid mid. key_count coll aid mid \<le> 1" by (rule assms)
next
  fix c :: emails and i and doc :: email_message
  assume inv: "\<forall>aid mid. key_count c aid mid \<le> 1"
    and acc: "account_id doc = acc_id a"
    and new: "find_by_key c (message_id doc) (acc_id a) = None"
  from new have z: "key_count c (acc_id a) (message_id doc) = 0" by (simp add: find_by_key_count)
  show "\<forall>aid mid. key_count (c @ [(i, doc)]) aid mid \<le> 1"
  proof (intro allI)
    fix aid mid
    show "key_count (c @ [(i, doc)]) aid mid \<le> 1"
      using inv[rule_format, of aid mid] z acc
      by (auto simp: key_count_append key_count_single)
  qed
qed

lemma sync_account_others:
  assumes "b \<noteq> acc_id a"
  shows "key_count (fst (snd (sync_account L M C a folders days coll))) b mid = key_count coll b mid"
proof (rule sync_account_inv[where I = "\<lambda>c. key_count c b mid = key_count coll b mid"])
  show "key_count coll b mid = key_count coll b mid" by simp
next
  fix c :: emails and i and doc :: email_message
  assume "key_count c b mid = key_count coll b mid" "account_id doc = acc_id a"
  with assms show "key_count (c @ [(i, doc)]) b mid = key_count coll b mid"
    by (simp add: key_count_append key_count_single)
qed

lemma apply_ops_unique:
  assumes "\<forall>aid mid. key_count coll aid mid \<le> 1"
  shows "\<forall>aid mid. key_count (apply_ops L coll ops) aid mid \<le> 1"
  using assms
proof (induction ops arbitrary: coll)
  case Nil
  then show ?case by (simp add: apply_ops_def)
next
  case (Cons op ops)
  have "\<forall>aid mid. key_count (apply_op L coll op) aid mid \<le> 1"
  proof (cases op)
    case (Sync M C a folders days)
    with sync_account_unique[OF Cons.prems] show ?thesis by simp
  next
    case (Mark email_id)
    with Cons.prems show ?thesis by (simp add: mark_interested_key_count)
  qed
  from Cons.IH[OF this] show ?case by (simp add: apply_ops_def)
qed

text \<open>After a loop that ends without an exception, every handle it went through is settled.\<close>

lemma sync_messages_settles:
  assumes "sync_messages L M C a f ns s = Inr s'" and "n \<in> set ns"
  shows "settled L M a f n (db s')"
  using assms
proof (induction ns arbitrary: s)
  case Nil
  then show ?case by simp
next
  case (Cons n0 ns)
  from Cons.prems(1) obtain s1 where s1: "sync_message L M C a f n0 s = Inr s1"
    and rest: "sync_messages L M C a f ns s1 = Inr s'"
    by (cases "sync_message L M C a f n0 s") auto
  show ?case
  proof (cases "n \<in> set ns")
    case True
    from Cons.IH[OF rest True] show ?thesis .
  next
    case False
    with Cons.prems(2) have "n = n0" by simp
    with sync_message_settles[OF s1] have "settled L M a f n (db s1)" by simp
    moreover from sync_messages_prefix[of s1 L M C a f ns] rest have "prefix (db s1) (db s')" by simp
    ultimately show ?thesis by (rule settled_prefix)
  qed
qed

lemma sync_folder_settles:
  assumes "sync_folder L M C a since f s = Inr s'"
    and "select_r M f = None"
    and "search_r M f (search_criterion since) = Inr (''OK'', dat)"
    and "n \<in> set (last_1000 (id_list_of dat))"
  shows "settled L M a f n (db s')"
proof -
  from assms(1-3) have "sync_messages L M C a f (last_1000 (id_list_of dat)) (search_call since f s) = Inr s'"
    by (simp add: sync_folder_def search_call_def)
  from sync_messages_settles[OF this assms(4)] show ?thesis .
qed

lemma sync_folder_prefix: "prefix (db s) (db (state_of (sync_folder L M C a since f s)))"
  using sync_folders_prefix[of s L M C a since "[f]"]
  by (simp split: sum.splits)

lemma sync_folders_settles:
  assumes "sync_folders L M C a since fs s = Inr s'"
    and "f \<in> set fs"
    and "select_r M f = None"
    and "search_r M f (search_criterion since) = Inr (''OK'', dat)"
    and "n \<in> set (last_1000 (id_list_of dat))"
  shows "settled L M a f n (db s')"
  using assms(1,2)
proof (induction fs arbitrary: s)
  case Nil
  then show ?case by simp
next
  case (Cons f0 fs)
  from Cons.prems(1) obtain s1 where s1: "sync_folder L M C a since f0 s = Inr s1"
    and rest: "sync_folders L M C a since fs s1 = Inr s'"
    by (cases "sync_folder L M C a since f0 s") auto
  show ?case
  proof (cases "f \<in> set fs")
    case True
    from Cons.IH[OF rest True] show ?thesis .
  next
    case False
    with Cons.prems(2) have "f = f0" by simp
    with sync_folder_settles[OF _ assms(3,4,5)] s1 have "settled L M a f n (db s1)" by simp
    moreover from sync_folders_prefix[of s1 L M C a since fs] rest have "prefix (db s1) (db s')" by simp
    ultimately show ?thesis by (rule settled_prefix)
  qed
qed

lemma message_key_header:
  "get_header L msg ''Message-ID'' = Some m \<Longrightarrow> m \<noteq> [] \<Longrightarrow> message_key L msg n f u = m"
  by (simp add: message_key_def)

text \<open>
  C2. A store reached from the empty one by sync runs and classification overrides has
  at most one record for a pair of account and message identifier. Take a run on such a
  store that returns a count, and a message with the \<open>Message-ID\<close> header \<open>m\<close> that the
  run fetches in a folder \<open>f\<close>. After the run the account has exactly one record with the
  identifier \<open>m\<close>, in however many folders the message is; the records of every other
  account are as many as before, so the same message synced under another account is
  a record of its own. A message whose key is stored for the account is skipped.
\<close>

theorem one_record_per_key:
  assumes "coll = apply_ops L [] ops"
    and "sync_account L M C a folders days coll = (Inr k, coll', cs)"
    and "since_date L (now C) days = Inr since"
    and "f \<in> set (target_folders folders)"
    and "select_r M f = None"
    and "search_r M f (search_criterion since) = Inr (''OK'', dat)"
    and "n \<in> set (last_1000 (id_list_of dat))"
    and "fetched L M f n = Some msg"
    and "get_header L msg ''Message-ID'' = Some m" and "m \<noteq> []"
  shows "key_count coll' (acc_id a) m = 1
         \<and> (\<forall>b mid. b \<noteq> acc_id a \<longrightarrow> key_count coll' b mid = key_count coll b mid)
         \<and> (\<forall>aid mid. key_count coll' aid mid \<le> 1)
         \<and> (find_by_key (db s) m (acc_id a) \<noteq> None \<longrightarrow>
              sync_message L M C a f n s = Inr (fetch_call n s))"
proof -
  have inv: "\<forall>aid mid. key_count coll aid mid \<le> 1"
    unfolding assms(1) by (rule apply_ops_unique) (simp add: key_count_def)
  have c': "coll' = fst (snd (sync_account L M C a folders days coll))"
    by (simp add: assms(2))
  from sync_account_unique[OF inv, of L M C a folders days]
  have uniq: "\<forall>aid mid. key_count coll' aid mid \<le> 1" by (simp add: c')
  have others: "\<forall>b mid. b \<noteq> acc_id a \<longrightarrow> key_count coll' b mid = key_count coll b mid"
    by (simp add: c' sync_account_others)
  have key: "message_key L msg n f (username a) = m"
    using assms(9,10) by (rule message_key_header)
  let ?r = "sync_folders L M C a since (target_folders folders) (start_state coll)"
  have "connected M a"
    using assms(2) by (cases rule: sync_account_cases[of M a L C folders days coll]) auto
  from sync_account_run[OF this assms(3), of folders coll] assms(2)
  have "raised ?r = None" and db: "coll' = db (state_of ?r)"
    by (auto split: option.splits)
  then obtain s' where s': "?r = Inr s'" by (cases ?r) auto
  from sync_folders_settles[OF s' assms(4,5,6,7)] db s'
  have "settled L M a f n coll'" by simp
  with assms(8) key have "find_by_key coll' m (acc_id a) \<noteq> None" by (simp add: settled_def)
  then have "key_count coll' (acc_id a) m \<noteq> 0" by (simp add: find_by_key_count)
  with uniq[rule_format, of "acc_id a" m] have one: "key_count coll' (acc_id a) m = 1" by simp
  have skip: "find_by_key (db s) m (acc_id a) \<noteq> None \<longrightarrow>
      sync_message L M C a f n s = Inr (fetch_call n s)"
    using sync_message_existing[OF assms(8), of s a C] key by simp
  from one others uniq skip show ?thesis by blast
qed

theorem one_record_per_key_witness:
  "fst (sync_account ex_lib ex_mailbox ex_clock ex_account (Some [''INBOX'', ''Archive'']) 7 [])
     = Inr 1
   \<and> fetched ex_lib ex_mailbox ''INBOX'' ''1'' = fetched ex_lib ex_mailbox ''Archive'' ''1''
   \<and> key_count (apply_ops ex_lib []
        [Sync ex_mailbox ex_clock ex_account (Some [''INBOX'', ''Archive'']) 7])
        ''acc1'' ''<m1@x>'' = 1
   \<and> length (apply_ops ex_lib []
        [Sync ex_mailbox ex_clock ex_account (Some [''INBOX'', ''Archive'']) 7]) = 1
   \<and> key_count (apply_ops ex_lib []
        [Sync ex_mailbox ex_clock ex_account (Some [''INBOX'', ''Archive'']) 7,
         Sync ex_mailbox ex_clock ex_account2 (Some [''Archive'']) 7])
        ''acc1'' ''<m1@x>'' = 1
   \<and> key_count (apply_ops ex_lib []
        [Sync ex_mailbox ex_clock ex_account (Some [''INBOX'', ''Archive'']) 7,
         Sync ex_mailbox ex_clock ex_account2 (Some [''Archive'']) 7])
        ''acc2'' ''<m1@x>'' = 1
   \<and> length (apply_ops ex_lib []
        [Sync ex_mailbox ex_clock ex_account (Some [''INBOX'', ''Archive'']) 7,
         Sync ex_mailbox ex_clock ex_account2 (Some [''Archive'']) 7]) = 2"
proof -
  let ?run1 = "sync_account ex_lib ex_mailbox ex_clock ex_account (Some [''INBOX'', ''Archive'']) 7 []"
  let ?c1 = "apply_ops ex_lib [] [Sync ex_mailbox ex_clock ex_account (Some [''INBOX'', ''Archive'']) 7]"
  let ?run2 = "sync_account ex_lib ex_mailbox ex_clock ex_account2 (Some [''Archive'']) 7 ?c1"
  let ?c2 = "apply_ops ex_lib []
        [Sync ex_mailbox ex_clock ex_account (Some [''INBOX'', ''Archive'']) 7,
         Sync ex_mailbox ex_clock ex_account2 (Some [''Archive'']) 7]"
  let ?msg = "message_from_bytes ex_lib (''<m1@x>'' @ [CHR 0x0A] @ ''hi'')"
  have e0: "[] = apply_ops ex_lib [] []" by (simp add: apply_ops_def)
  have c1: "?c1 = fst (snd ?run1)" by (simp add: apply_ops_def)
  have c2: "?c2 = fst (snd ?run2)" by (simp add: apply_ops_def)
  have r1: "fst ?run1 = Inr 1" by code_simp
  have r2: "fst ?run2 = Inr 1" by code_simp
  from r1 c1 have run1: "?run1 = (Inr 1, ?c1, snd (snd ?run1))" by (simp add: prod_eq_iff)
  from r2 c2 have run2: "?run2 = (Inr 1, ?c2, snd (snd ?run2))" by (simp add: prod_eq_iff)
  have since: "since_date ex_lib (now ex_clock) 7 = Inr ''01-Jan-2024''" by code_simp
  have f1: "''Archive'' \<in> set (target_folders (Some [''INBOX'', ''Archive'']))" by code_simp
  have f2: "''Archive'' \<in> set (target_folders (Some [''Archive'']))" by code_simp
  have sel: "select_r ex_mailbox ''Archive'' = None" by code_simp
  have sea: "search_r ex_mailbox ''Archive'' (search_criterion ''01-Jan-2024'') = Inr (''OK'', [Some ''1''])"
    by code_simp
  have n: "''1'' \<in> set (last_1000 (id_list_of [Some ''1'']))" by code_simp
  have fe: "fetched ex_lib ex_mailbox ''Archive'' ''1'' = Some ?msg" by code_simp
  have same: "fetched ex_lib ex_mailbox ''INBOX'' ''1'' = fetched ex_lib ex_mailbox ''Archive'' ''1''"
    by code_simp
  have hd: "get_header ex_lib ?msg ''Message-ID'' = Some ''<m1@x>''" by code_simp
  have ne: "''<m1@x>'' \<noteq> []" by simp
  have a1: "acc_id ex_account = ''acc1''" by code_simp
  have a2: "acc_id ex_account2 = ''acc2''" by code_simp
  have len1: "length ?c1 = 1" by code_simp
  have len2: "length ?c2 = 2" by code_simp
  from one_record_per_key[OF e0 run1 since f1 sel sea n fe hd ne] a1
  have k1: "key_count ?c1 ''acc1'' ''<m1@x>'' = 1" by simp
  from one_record_per_key[OF refl run2 since f2 sel sea n fe hd ne] a2
  have k2: "key_count ?c2 ''acc2'' ''<m1@x>'' = 1"
    and o2: "\<forall>b mid. b \<noteq> ''acc2'' \<longrightarrow> key_count ?c2 b mid = key_count ?c1 b mid"
    by simp_all
  from o2 k1 have k3: "key_count ?c2 ''acc1'' ''<m1@x>'' = 1" by simp
  from r1 same k1 len1 k3 k2 len2 show ?thesis by simp
qed

end
